theory Spec2Isabelle
  imports Main "HOL-Library.Word"
begin

unbundle bit_operations_syntax

section \<open>Data model of lib/memory.c, built with \<^verbatim>\<open>_MEM_CHECK_\<close>\<close>

text \<open>
  The embedding fixes an LP64 target: \<^verbatim>\<open>unsigned long\<close>, \<^verbatim>\<open>size_t\<close> and pointers are
  64-bit words (the first branch of the \<^verbatim>\<open>ULONG_MAX\<close> test that selects
  \<^verbatim>\<open>CHECK_VAL\<close>), \<^verbatim>\<open>unsigned\<close> is a 32-bit word.  Time stamps (\<^verbatim>\<open>format_time\<close>), the
  banner string and the optional syslog copies under \<^verbatim>\<open>_MEM_CHECK_LOG_\<close> are left out
  of the log lines.
\<close>

type_synonym addr = "64 word"
type_synonym byte = "8 word"
type_synonym size_t = "64 word"
type_synonym ulong = "64 word"
type_synonym uint = "32 word"

abbreviation NULL :: addr where
  "NULL \<equiv> 0"

datatype slot_type =
    FREE_SLOT
  | OVERRUN
  | FREE_NULL
  | REALLOC_NULL
  | FREE_NOT_ALLOC
  | REALLOC_NOT_ALLOC
  | LAST_FREE
  | ALLOCATED

definition CHECK_VAL :: ulong where
  "CHECK_VAL = 0xa5a55a5aa5a55a5a"

definition FREE_LIST_SIZE :: nat where
  "FREE_LIST_SIZE = 256"

text \<open>The struct \<^verbatim>\<open>MEMCHECK\<close>; its fields carry the prefix \<open>mc_\<close>.\<close>

record MEMCHECK =
  mc_type :: slot_type
  mc_line :: int
  mc_func :: string
  mc_file :: string
  mc_ptr :: addr
  mc_size :: size_t

text \<open>A static array starts zeroed: type \<^verbatim>\<open>FREE_SLOT\<close> (= 0), null pointers, size 0.\<close>

definition zero_MEMCHECK :: MEMCHECK where
  "zero_MEMCHECK =
     \<lparr>mc_type = FREE_SLOT, mc_line = 0, mc_func = [], mc_file = [], mc_ptr = NULL, mc_size = 0\<rparr>"

text \<open>
  The heap of the underlying allocator: a live block is the list of its bytes, kept under
  its base address.  An access outside a live block is undefined behaviour, which the
  model reports as the outcome \<open>UNDEFINED\<close>.
\<close>

type_synonym heap = "addr \<Rightarrow> byte list option"

datatype fatal =
    EXIT_FAILURE
  | ASSERT_FAILED
  | UNDEFINED

text \<open>One constructor for each \<^verbatim>\<open>fprintf(log_op, ...)\<close> of the file, with its arguments.\<close>

datatype log_line =
    Log_zalloc nat nat addr size_t string int string
  | Log_free_NULL string int string
  | Log_realloc_NULL size_t string int string
  | Log_free_ERROR addr string int string
  | Log_realloc_ERROR addr size_t string int string
  | Log_last_released int nat string int string
  | Log_corrupt bool nat nat addr size_t string int string
  | Log_dump_buffer "byte list"
  | Log_Check_sum
  | Log_free nat nat addr size_t string int string
  | Log_realloc nat nat addr size_t string int string addr size_t string int string
  | Log_converted_to_free addr
  | Log_dump_header bool
  | Log_dump_realloc_nil size_t string int string
  | Log_dump_free_not_found addr nat nat string int string
  | Log_dump_realloc_not_found addr nat nat size_t string int string
  | Log_dump_free_nil string int string
  | Log_dump_overrun addr nat nat size_t
  | Log_dump_source_malloc string int string
  | Log_dump_allocated addr nat nat size_t bool
  | Log_dump_source_malloc_realloc string int string
  | Log_summary_header
  | Log_total_bytes bool size_t
  | Log_entries bool int
  | Log_max_entries nat
  | Log_max_memory size_t
  | Log_mallocs uint
  | Log_reallocs uint
  | Log_bad_entries uint
  | Log_buffer_overrun uint
  | Log_sum_ERROR size_t size_t
  | Log_memory_problem
  | Log_allocation_safe

text \<open>
  The file's static and global variables.  The counters \<^verbatim>\<open>n\<close> and \<^verbatim>\<open>f\<close> of the source
  are the fields \<open>n_used\<close> and \<open>f_next\<close>; \<open>mem_err_detect\<close> is the bit
  \<^verbatim>\<open>MEM_ERR_DETECT_BIT\<close> of the global \<^verbatim>\<open>debug\<close>; \<open>log_op\<close> is what has been
  written to the stream \<^verbatim>\<open>log_op\<close>.  The arrays \<^verbatim>\<open>alloc_list[MAX_ALLOC_LIST]\<close> and
  \<^verbatim>\<open>free_list[FREE_LIST_SIZE]\<close> are lists of that fixed length.
\<close>

record mstate =
  mem_allocated :: size_t
  max_mem_allocated :: size_t
  skip_mem_check_final :: bool
  free_list :: "MEMCHECK list"
  alloc_list :: "MEMCHECK list"
  number_alloc_list :: nat
  n_used :: int
  f_next :: nat
  num_mallocs :: uint
  num_reallocs :: uint
  log_op :: "log_line list"
  mem_err_detect :: bool
  heap :: heap

text \<open>
  What the underlying allocator answers to the one \<^verbatim>\<open>malloc\<close> or \<^verbatim>\<open>realloc\<close> call an
  operation makes: the address it returns (\<open>NULL\<close> on failure) and the indeterminate
  bytes of fresh memory, by offset.
\<close>

record reply =
  reply_ptr :: addr
  reply_junk :: "nat \<Rightarrow> byte"

section \<open>Memory accesses\<close>

text \<open>An \<^verbatim>\<open>unsigned long\<close> in memory: eight bytes, least significant first.\<close>

definition ulong_bytes :: "ulong \<Rightarrow> byte list" where
  "ulong_bytes w = map (\<lambda>k. ucast (drop_bit (8 * k) w)) [0..<8]"

definition bytes_ulong :: "byte list \<Rightarrow> ulong" where
  "bytes_ulong bs = foldr (\<lambda>b acc. ucast b OR push_bit 8 acc) bs 0"

text \<open>
  \<^verbatim>\<open>*(unsigned long *) ((char *) p + off)\<close>, read and written; \<open>None\<close> when the
  access is undefined (a null pointer, no live block at \<open>p\<close>, or bytes past its end).
\<close>

definition load_ulong :: "heap \<Rightarrow> addr \<Rightarrow> nat \<Rightarrow> ulong option" where
  "load_ulong h p off =
     (if p = NULL then None
      else case h p of
        None \<Rightarrow> None
      | Some blk \<Rightarrow>
          if off + 8 \<le> length blk then Some (bytes_ulong (take 8 (drop off blk))) else None)"

definition store_ulong :: "heap \<Rightarrow> addr \<Rightarrow> nat \<Rightarrow> ulong \<Rightarrow> heap option" where
  "store_ulong h p off v =
     (if p = NULL then None
      else case h p of
        None \<Rightarrow> None
      | Some blk \<Rightarrow>
          if off + 8 \<le> length blk
          then Some (h(p \<mapsto> take off blk @ ulong_bytes v @ drop (off + 8) blk))
          else None)"

text \<open>\<^verbatim>\<open>memset(mem, 0, size)\<close> on the block at \<open>mem\<close>.\<close>

definition memset_zero :: "heap \<Rightarrow> addr \<Rightarrow> nat \<Rightarrow> heap option" where
  "memset_zero h p len =
     (case h p of
        None \<Rightarrow> None
      | Some blk \<Rightarrow>
          if len \<le> length blk then Some (h(p \<mapsto> replicate len 0 @ drop len blk)) else None)"

text \<open>The block \<^verbatim>\<open>malloc(size)\<close> hands out, and the one \<^verbatim>\<open>realloc\<close> makes of an old one.\<close>

definition malloc_block :: "(nat \<Rightarrow> byte) \<Rightarrow> nat \<Rightarrow> byte list" where
  "malloc_block junk len = map junk [0..<len]"

definition realloc_block :: "(nat \<Rightarrow> byte) \<Rightarrow> byte list \<Rightarrow> nat \<Rightarrow> byte list" where
  "realloc_block junk old len = take len old @ map junk [length old..<len]"

section \<open>The allocator wrappers\<close>

text \<open>
  \<^verbatim>\<open>xalloc\<close>: a failed \<^verbatim>\<open>malloc\<close> ends the process with \<^verbatim>\<open>exit(EXIT_FAILURE)\<close>; the
  byte counters are bumped by \<^verbatim>\<open>size - sizeof(long)\<close>.
\<close>

definition xalloc :: "reply \<Rightarrow> mstate \<Rightarrow> ulong \<Rightarrow> fatal + addr \<times> mstate" where
  "xalloc r s size' =
     (let mem = reply_ptr r in
      if mem = NULL then Inl EXIT_FAILURE
      else
        let s1 = s\<lparr>heap := (heap s)(mem \<mapsto> malloc_block (reply_junk r) (unat size'))\<rparr>;
            s2 = s1\<lparr>mem_allocated := mem_allocated s1 + (size' - 8)\<rparr>;
            s3 = (if mem_allocated s2 > max_mem_allocated s2
                  then s2\<lparr>max_mem_allocated := mem_allocated s2\<rparr> else s2)
        in Inr (mem, s3))"

definition zalloc :: "reply \<Rightarrow> mstate \<Rightarrow> ulong \<Rightarrow> fatal + addr \<times> mstate" where
  "zalloc r s size' =
     (case xalloc r s size' of
        Inl e \<Rightarrow> Inl e
      | Inr (mem, s1) \<Rightarrow>
          if mem \<noteq> NULL then
            (case memset_zero (heap s1) mem (unat size') of
               None \<Rightarrow> Inl UNDEFINED
             | Some h \<Rightarrow> Inr (mem, s1\<lparr>heap := h\<rparr>))
          else Inr (mem, s1))"

section \<open>The allocation table\<close>

text \<open>The \<^verbatim>\<open>for\<close> loop of \<^verbatim>\<open>get_free_alloc_entry\<close>, from index \<open>i\<close> on.\<close>

function free_entry_loop :: "MEMCHECK list \<Rightarrow> nat \<Rightarrow> int \<Rightarrow> nat \<Rightarrow> nat" where
  "free_entry_loop al nal avoid i =
     (if i < nal then
        (if mc_type (al ! i) = FREE_SLOT \<and> int i \<noteq> avoid then i
         else free_entry_loop al nal avoid (Suc i))
      else i)"
  by pat_completeness auto
termination
  by (relation "measure (\<lambda>(al, nal, avoid, i). nal - i)") auto

declare free_entry_loop.simps [simp del]

text \<open>
  \<^verbatim>\<open>get_free_alloc_entry\<close>, with the capacity \<^verbatim>\<open>MAX_ALLOC_LIST\<close> (set by configure, not
  in this file) as the parameter \<open>MAX_ALLOC_LIST\<close>.  The failed \<^verbatim>\<open>assert\<close> aborts the process.
\<close>

definition get_free_alloc_entry :: "nat \<Rightarrow> mstate \<Rightarrow> int \<Rightarrow> fatal + nat \<times> mstate" where
  "get_free_alloc_entry MAX_ALLOC_LIST s avoid =
     (let i = free_entry_loop (alloc_list s) (number_alloc_list s) avoid 0;
          s1 = (if i = number_alloc_list s
                then s\<lparr>number_alloc_list := number_alloc_list s + 1\<rparr> else s)
      in if number_alloc_list s1 \<ge> MAX_ALLOC_LIST then Inl ASSERT_FAILED else Inr (i, s1))"

definition keepalived_malloc ::
  "nat \<Rightarrow> reply \<Rightarrow> mstate \<Rightarrow> size_t \<Rightarrow> string \<Rightarrow> string \<Rightarrow> int \<Rightarrow> fatal + addr \<times> mstate" where
  "keepalived_malloc MAX_ALLOC_LIST r s size' file func line =
     (case zalloc r s (size' + 8) of
        Inl e \<Rightarrow> Inl e
      | Inr (buf, s1) \<Rightarrow>
          (case store_ulong (heap s1) buf (unat size') (size' + CHECK_VAL) of
             None \<Rightarrow> Inl UNDEFINED
           | Some h \<Rightarrow>
               (case get_free_alloc_entry MAX_ALLOC_LIST (s1\<lparr>heap := h\<rparr>) (- 1) of
                  Inl e \<Rightarrow> Inl e
                | Inr (i, s2) \<Rightarrow>
                    let s3 = s2\<lparr>alloc_list := (alloc_list s2)
                               [i := (alloc_list s2 ! i)\<lparr>mc_ptr := buf, mc_size := size',
                                  mc_file := file, mc_func := func, mc_line := line,
                                  mc_type := ALLOCATED\<rparr>]\<rparr>;
                        s4 = s3\<lparr>log_op := log_op s3 @
                               [Log_zalloc i (number_alloc_list s3) buf size' file line func]\<rparr>
                    in Inr (buf, s4\<lparr>n_used := n_used s4 + 1,
                                   num_mallocs := num_mallocs s4 + 1\<rparr>))))"

text \<open>
  The underlying \<^verbatim>\<open>free\<close> and \<^verbatim>\<open>realloc\<close>; \<open>None\<close> when \<open>p\<close> is not a live block.
  A failed \<^verbatim>\<open>realloc\<close> returns \<open>NULL\<close> and leaves the block alone.
\<close>

definition c_free :: "heap \<Rightarrow> addr \<Rightarrow> heap option" where
  "c_free h p = (case h p of None \<Rightarrow> None | Some blk \<Rightarrow> Some (h(p := None)))"

definition c_realloc :: "reply \<Rightarrow> heap \<Rightarrow> addr \<Rightarrow> nat \<Rightarrow> (addr \<times> heap) option" where
  "c_realloc r h p len =
     (case h p of
        None \<Rightarrow> None
      | Some blk \<Rightarrow>
          if reply_ptr r = NULL then Some (NULL, h)
          else Some (reply_ptr r,
                     (h(p := None))(reply_ptr r \<mapsto> realloc_block (reply_junk r) blk len)))"

text \<open>\<^verbatim>\<open>dump_buffer(p, len, log_op, ...)\<close> of utils.c prints \<open>len\<close> bytes from \<open>p\<close>.\<close>

definition dump_buffer :: "heap \<Rightarrow> addr \<Rightarrow> nat \<Rightarrow> log_line option" where
  "dump_buffer h p len =
     (case h p of
        None \<Rightarrow> None
      | Some blk \<Rightarrow> if len \<le> length blk then Some (Log_dump_buffer (take len blk)) else None)"

section \<open>\<^verbatim>\<open>keepalived_free_realloc_common\<close>\<close>

text \<open>Lines 239 to 259: the null pointer.\<close>

definition common_NULL ::
  "nat \<Rightarrow> reply \<Rightarrow> mstate \<Rightarrow> size_t \<Rightarrow> string \<Rightarrow> string \<Rightarrow> int \<Rightarrow> fatal + addr \<times> mstate" where
  "common_NULL MAX_ALLOC_LIST r s size' file func line =
     (case get_free_alloc_entry MAX_ALLOC_LIST s (- 1) of
        Inl e \<Rightarrow> Inl e
      | Inr (i, s1) \<Rightarrow>
          let s2 = s1\<lparr>alloc_list := (alloc_list s1)
                     [i := (alloc_list s1 ! i)\<lparr>mc_ptr := NULL, mc_size := 0,
                        mc_file := file, mc_func := func, mc_line := line,
                        mc_type := (if size' = 0 then FREE_NULL else REALLOC_NULL)\<rparr>]\<rparr>;
              s3 = s2\<lparr>log_op := log_op s2 @
                     [if size' = 0 then Log_free_NULL file line func
                      else Log_realloc_NULL size' file line func]\<rparr>;
              s4 = s3\<lparr>mem_err_detect := True\<rparr>
          in if size' = 0 then Inr (NULL, s4)
             else keepalived_malloc MAX_ALLOC_LIST r s4 size' file func line)"

text \<open>Lines 261 to 264: the search for the allocated slot of \<open>buffer\<close>, from index \<open>i\<close> on.\<close>

function allocated_loop :: "MEMCHECK list \<Rightarrow> nat \<Rightarrow> addr \<Rightarrow> nat \<Rightarrow> nat" where
  "allocated_loop al nal buffer i =
     (if i < nal then
        (if mc_type (al ! i) = ALLOCATED \<and> mc_ptr (al ! i) = buffer then i
         else allocated_loop al nal buffer (Suc i))
      else i)"
  by pat_completeness auto
termination
  by (relation "measure (\<lambda>(al, nal, buffer, i). nal - i)") auto

declare allocated_loop.simps [simp del]

text \<open>The index before \<open>j\<close> in the ring: \<^verbatim>\<open>(j ? j : FREE_LIST_SIZE) - 1\<close>.\<close>

definition ring_prev :: "nat \<Rightarrow> nat" where
  "ring_prev j = (if j \<noteq> 0 then j else FREE_LIST_SIZE) - 1"

text \<open>
  Lines 287 to 298: the \<^verbatim>\<open>do ... while\<close> over \<^verbatim>\<open>free_list\<close>, entered at \<open>j\<close>; it
  gives the index where it breaks, if it does.  The loop starts at \<open>j = start\<close>, and an
  index outside the array is an undefined read.
\<close>

function last_free_loop ::
  "MEMCHECK list \<Rightarrow> nat \<Rightarrow> addr \<Rightarrow> nat \<Rightarrow> fatal + nat option" where
  "last_free_loop fl start buffer j =
     (if FREE_LIST_SIZE \<le> j \<or> FREE_LIST_SIZE \<le> start \<or> length fl \<noteq> FREE_LIST_SIZE
      then Inl UNDEFINED
      else if mc_ptr (fl ! j) = buffer \<and> mc_type (fl ! j) = LAST_FREE then Inr (Some j)
      else
        let j' = ring_prev j
        in if j' \<noteq> start then last_free_loop fl start buffer j' else Inr None)"
  by pat_completeness auto
termination
  by (relation "measure (\<lambda>(fl, start, buffer, j).
        if j = start then FREE_LIST_SIZE
        else if start < j then j - start else j + FREE_LIST_SIZE - start)")
     (auto simp: FREE_LIST_SIZE_def ring_prev_def)

declare last_free_loop.simps [simp del]

text \<open>Lines 266 to 301: no allocated slot holds \<open>buffer\<close>.\<close>

definition common_not_found ::
  "nat \<Rightarrow> mstate \<Rightarrow> addr \<Rightarrow> size_t \<Rightarrow> string \<Rightarrow> string \<Rightarrow> int \<Rightarrow> fatal + addr \<times> mstate" where
  "common_not_found MAX_ALLOC_LIST s buffer size' file func line =
     (case get_free_alloc_entry MAX_ALLOC_LIST s (- 1) of
        Inl e \<Rightarrow> Inl e
      | Inr (i, s1) \<Rightarrow>
          let s2 = s1\<lparr>alloc_list := (alloc_list s1)
                     [i := (alloc_list s1 ! i)\<lparr>mc_ptr := buffer, mc_size := size',
                        mc_file := file, mc_func := func, mc_line := line,
                        mc_type := (if size' = 0 then FREE_NOT_ALLOC else REALLOC_NOT_ALLOC)\<rparr>]\<rparr>;
              s3 = s2\<lparr>log_op := log_op s2 @
                     [if size' = 0 then Log_free_ERROR buffer file line func
                      else Log_realloc_ERROR buffer size' file line func]\<rparr>;
              s4 = s3\<lparr>mem_err_detect := True\<rparr>;
              start = ring_prev (f_next s4)
          in (case last_free_loop (free_list s4) start buffer start of
                Inl e \<Rightarrow> Inl e
              | Inr None \<Rightarrow> Inr (NULL, s4)
              | Inr (Some j) \<Rightarrow>
                  Inr (NULL, s4\<lparr>log_op := log_op s4 @
                         [Log_last_released
                            (sint (ucast (mc_size (free_list s4 ! j)) :: 32 word))
                            (number_alloc_list s4)
                            (mc_file (free_list s4 ! j)) (mc_line (free_list s4 ! j))
                            (mc_func (free_list s4 ! j))]\<rparr>)))"

text \<open>Lines 304 to 325: the trailer differs from \<open>check\<close>.\<close>

definition common_overrun ::
  "nat \<Rightarrow> mstate \<Rightarrow> nat \<Rightarrow> addr \<Rightarrow> size_t \<Rightarrow> string \<Rightarrow> string \<Rightarrow> int \<Rightarrow> ulong \<Rightarrow>
   fatal + mstate" where
  "common_overrun MAX_ALLOC_LIST s i buffer size' file func line check =
     (case (if size' = 0
            then Inr (s\<lparr>alloc_list := (alloc_list s)
                        [i := (alloc_list s ! i)\<lparr>mc_type := OVERRUN\<rparr>]\<rparr>)
            else (case get_free_alloc_entry MAX_ALLOC_LIST s (- 1) of
                    Inl e \<Rightarrow> Inl e
                  | Inr (j, s1) \<Rightarrow>
                      Inr (s1\<lparr>alloc_list := (alloc_list s1)
                             [j := (alloc_list s1 ! i)\<lparr>mc_type := OVERRUN\<rparr>]\<rparr>))) of
        Inl e \<Rightarrow> Inl e
      | Inr s2 \<Rightarrow>
          (case dump_buffer (heap s2) (mc_ptr (alloc_list s2 ! i))
                  (unat (mc_size (alloc_list s2 ! i) + 8)) of
             None \<Rightarrow> Inl UNDEFINED
           | Some tail \<Rightarrow>
               let s3 = s2\<lparr>log_op := log_op s2 @
                          [Log_corrupt (size' = 0) i (number_alloc_list s2) buffer
                             (mc_size (alloc_list s2 ! i)) file line func,
                           tail, Log_Check_sum, Log_dump_buffer (ulong_bytes check)]\<rparr>
               in Inr (s3\<lparr>mem_err_detect := True\<rparr>)))"

text \<open>Lines 331 to 355: the slot is released.\<close>

definition common_free ::
  "mstate \<Rightarrow> nat \<Rightarrow> addr \<Rightarrow> string \<Rightarrow> string \<Rightarrow> int \<Rightarrow> fatal + addr \<times> mstate" where
  "common_free s i buffer file func line =
     (case c_free (heap s) buffer of
        None \<Rightarrow> Inl UNDEFINED
      | Some h \<Rightarrow>
          let s1 = s\<lparr>heap := h\<rparr>;
              s2 = s1\<lparr>log_op := log_op s1 @
                     [Log_free i (number_alloc_list s1) buffer
                        (mc_size (alloc_list s1 ! i)) file line func]\<rparr>;
              s3 = s2\<lparr>free_list := (free_list s2)
                     [f_next s2 := (free_list s2 ! f_next s2)\<lparr>mc_file := file,
                        mc_line := line, mc_func := func, mc_ptr := buffer,
                        mc_type := LAST_FREE, mc_size := of_nat i\<rparr>]\<rparr>;
              s4 = s3\<lparr>f_next := f_next s3 + 1\<rparr>;
              s5 = s4\<lparr>f_next := f_next s4 mod FREE_LIST_SIZE\<rparr>
          in Inr (NULL, s5\<lparr>n_used := n_used s5 - 1\<rparr>))"

text \<open>Lines 356 to 389: the slot is resized.\<close>

definition common_realloc ::
  "reply \<Rightarrow> mstate \<Rightarrow> nat \<Rightarrow> addr \<Rightarrow> size_t \<Rightarrow> string \<Rightarrow> string \<Rightarrow> int \<Rightarrow>
   fatal + addr \<times> mstate" where
  "common_realloc r s i buffer size' file func line =
     (case c_realloc r (heap s) buffer (unat (size' + 8)) of
        None \<Rightarrow> Inl UNDEFINED
      | Some (buffer', h) \<Rightarrow>
          let s1 = s\<lparr>heap := h\<rparr>;
              s2 = s1\<lparr>mem_allocated := mem_allocated s1 + size'\<rparr>;
              s3 = (if mem_allocated s2 > max_mem_allocated s2
                    then s2\<lparr>max_mem_allocated := mem_allocated s2\<rparr> else s2);
              s4 = s3\<lparr>log_op := log_op s3 @
                     [Log_realloc i (number_alloc_list s3)
                        (mc_ptr (alloc_list s3 ! i)) (mc_size (alloc_list s3 ! i))
                        (mc_file (alloc_list s3 ! i)) (mc_line (alloc_list s3 ! i))
                        (mc_func (alloc_list s3 ! i))
                        buffer' size' file line func]\<rparr>
          in (case store_ulong (heap s4) buffer' (unat size') (size' + CHECK_VAL) of
                None \<Rightarrow> Inl UNDEFINED
              | Some h' \<Rightarrow>
                  let s5 = s4\<lparr>heap := h'\<rparr>;
                      s6 = s5\<lparr>alloc_list := (alloc_list s5)
                             [i := (alloc_list s5 ! i)\<lparr>mc_ptr := buffer', mc_size := size',
                                mc_file := file, mc_line := line, mc_func := func\<rparr>]\<rparr>
                  in Inr (buffer', s6\<lparr>num_reallocs := num_reallocs s6 + 1\<rparr>)))"

text \<open>Lines 303 to 389: slot \<open>i\<close> is the allocated slot of \<open>buffer\<close>.\<close>

definition common_found ::
  "nat \<Rightarrow> reply \<Rightarrow> mstate \<Rightarrow> nat \<Rightarrow> addr \<Rightarrow> size_t \<Rightarrow> string \<Rightarrow> string \<Rightarrow> int \<Rightarrow>
   fatal + addr \<times> mstate" where
  "common_found MAX_ALLOC_LIST r s i buffer size' file func line =
     (let check = mc_size (alloc_list s ! i) + CHECK_VAL in
      case load_ulong (heap s) buffer (unat (mc_size (alloc_list s ! i))) of
        None \<Rightarrow> Inl UNDEFINED
      | Some trailer \<Rightarrow>
          (case (if trailer \<noteq> check
                 then common_overrun MAX_ALLOC_LIST s i buffer size' file func line check
                 else if size' = 0
                 then Inr (s\<lparr>alloc_list := (alloc_list s)
                             [i := (alloc_list s ! i)\<lparr>mc_type := FREE_SLOT\<rparr>]\<rparr>)
                 else Inr s) of
             Inl e \<Rightarrow> Inl e
           | Inr s1 \<Rightarrow>
               let s2 = s1\<lparr>mem_allocated := mem_allocated s1 - mc_size (alloc_list s1 ! i)\<rparr>
               in if size' = 0 then common_free s2 i buffer file func line
                  else common_realloc r s2 i buffer size' file func line))"

definition keepalived_free_realloc_common ::
  "nat \<Rightarrow> reply \<Rightarrow> mstate \<Rightarrow> addr \<Rightarrow> size_t \<Rightarrow> string \<Rightarrow> string \<Rightarrow> int \<Rightarrow>
   fatal + addr \<times> mstate" where
  "keepalived_free_realloc_common MAX_ALLOC_LIST r s buffer size' file func line =
     (if buffer = NULL then common_NULL MAX_ALLOC_LIST r s size' file func line
      else
        let i = allocated_loop (alloc_list s) (number_alloc_list s) buffer 0
        in if i = number_alloc_list s
           then common_not_found MAX_ALLOC_LIST s buffer size' file func line
           else common_found MAX_ALLOC_LIST r s i buffer size' file func line)"

definition keepalived_free ::
  "nat \<Rightarrow> reply \<Rightarrow> mstate \<Rightarrow> addr \<Rightarrow> string \<Rightarrow> string \<Rightarrow> int \<Rightarrow> fatal + mstate" where
  "keepalived_free MAX_ALLOC_LIST r s buffer file func line =
     (case keepalived_free_realloc_common MAX_ALLOC_LIST r s buffer 0 file func line of
        Inl e \<Rightarrow> Inl e
      | Inr (p, s') \<Rightarrow> Inr s')"

definition keepalived_realloc ::
  "nat \<Rightarrow> reply \<Rightarrow> mstate \<Rightarrow> addr \<Rightarrow> size_t \<Rightarrow> string \<Rightarrow> string \<Rightarrow> int \<Rightarrow>
   fatal + addr \<times> mstate" where
  "keepalived_realloc MAX_ALLOC_LIST r s buffer size' file func line =
     (if size' = 0 then
        (case keepalived_free MAX_ALLOC_LIST r
                (s\<lparr>log_op := log_op s @ [Log_converted_to_free buffer]\<rparr>)
                buffer file func line of
           Inl e \<Rightarrow> Inl e
         | Inr s' \<Rightarrow> Inr (NULL, s'))
      else keepalived_free_realloc_common MAX_ALLOC_LIST r s buffer size' file func line)"

section \<open>The dumps\<close>

text \<open>
  The body of the \<^verbatim>\<open>switch\<close> of \<^verbatim>\<open>keepalived_alloc_log\<close> for slot \<open>i\<close>, on the
  counters \<^verbatim>\<open>overrun\<close>, \<^verbatim>\<open>badptr\<close>, \<^verbatim>\<open>sum\<close> and the lines written so far.
\<close>

definition alloc_log_entry ::
  "bool \<Rightarrow> nat \<Rightarrow> nat \<Rightarrow> MEMCHECK \<Rightarrow> uint \<times> uint \<times> size_t \<times> log_line list \<Rightarrow>
   uint \<times> uint \<times> size_t \<times> log_line list" where
  "alloc_log_entry final nal i e acc =
     (case acc of (overrun, badptr, nbytes, lg) \<Rightarrow>
        (case mc_type e of
           REALLOC_NULL \<Rightarrow>
             (overrun, badptr + 1, nbytes,
              lg @ [Log_dump_realloc_nil (mc_size e) (mc_file e) (mc_line e) (mc_func e)])
         | FREE_NOT_ALLOC \<Rightarrow>
             (overrun, badptr + 1, nbytes,
              lg @ [Log_dump_free_not_found (mc_ptr e) i nal
                      (mc_file e) (mc_line e) (mc_func e)])
         | REALLOC_NOT_ALLOC \<Rightarrow>
             (overrun, badptr + 1, nbytes,
              lg @ [Log_dump_realloc_not_found (mc_ptr e) i nal (mc_size e)
                      (mc_file e) (mc_line e) (mc_func e)])
         | FREE_NULL \<Rightarrow>
             (overrun, badptr + 1, nbytes,
              lg @ [Log_dump_free_nil (mc_file e) (mc_line e) (mc_func e)])
         | OVERRUN \<Rightarrow>
             (overrun + 1, badptr, nbytes,
              lg @ [Log_dump_overrun (mc_ptr e) i nal (mc_size e),
                    Log_dump_source_malloc (mc_file e) (mc_line e) (mc_func e)])
         | ALLOCATED \<Rightarrow>
             (overrun, badptr, nbytes + mc_size e,
              lg @ [Log_dump_allocated (mc_ptr e) i nal (mc_size e) final,
                    Log_dump_source_malloc_realloc (mc_file e) (mc_line e) (mc_func e)])
         | FREE_SLOT \<Rightarrow> acc
         | LAST_FREE \<Rightarrow> acc))"

function alloc_log_loop ::
  "MEMCHECK list \<Rightarrow> nat \<Rightarrow> bool \<Rightarrow> nat \<Rightarrow> uint \<times> uint \<times> size_t \<times> log_line list \<Rightarrow>
   uint \<times> uint \<times> size_t \<times> log_line list" where
  "alloc_log_loop al nal final i acc =
     (if i < nal
      then alloc_log_loop al nal final (Suc i) (alloc_log_entry final nal i (al ! i) acc)
      else acc)"
  by pat_completeness auto
termination
  by (relation "measure (\<lambda>(al, nal, final, i, acc). nal - i)") auto

declare alloc_log_loop.simps [simp del]

definition keepalived_alloc_log :: "mstate \<Rightarrow> bool \<Rightarrow> mstate" where
  "keepalived_alloc_log s final =
     (if final \<and> skip_mem_check_final s then s
      else
        let s1 = s\<lparr>log_op := log_op s @ [Log_dump_header final]\<rparr>
        in (case alloc_log_loop (alloc_list s1) (number_alloc_list s1) final 0
                   (0, 0, 0, log_op s1) of
              (overrun, badptr, nbytes, lg) \<Rightarrow>
                let s2 = s1\<lparr>log_op := lg @
                           [Log_summary_header,
                            Log_total_bytes final nbytes,
                            Log_entries final (n_used s1),
                            Log_max_entries (number_alloc_list s1),
                            Log_max_memory (max_mem_allocated s1),
                            Log_mallocs (num_mallocs s1),
                            Log_reallocs (num_reallocs s1),
                            Log_bad_entries badptr,
                            Log_buffer_overrun overrun]\<rparr>;
                    s3 = (if nbytes \<noteq> mem_allocated s2
                          then s2\<lparr>log_op := log_op s2 @
                                  [Log_sum_ERROR nbytes (mem_allocated s2)]\<rparr>
                          else s2)
                in if final then
                     (if nbytes \<noteq> 0 \<or> n_used s3 \<noteq> 0 \<or> badptr \<noteq> 0 \<or> overrun \<noteq> 0
                      then s3\<lparr>log_op := log_op s3 @ [Log_memory_problem]\<rparr>
                      else s3\<lparr>log_op := log_op s3 @ [Log_allocation_safe]\<rparr>)
                   else s3))"

definition keepalived_free_final :: "mstate \<Rightarrow> mstate" where
  "keepalived_free_final s = keepalived_alloc_log s True"

definition keepalived_alloc_dump :: "mstate \<Rightarrow> mstate" where
  "keepalived_alloc_dump s = keepalived_alloc_log s False"

definition skip_mem_dump :: "mstate \<Rightarrow> mstate" where
  "skip_mem_dump s = s\<lparr>skip_mem_check_final := True\<rparr>"

section \<open>Runs of the tracker\<close>

text \<open>The statics at program start: zeroed arrays and counters, an empty heap and log.\<close>

definition initial_state :: "nat \<Rightarrow> mstate" where
  "initial_state MAX_ALLOC_LIST =
     \<lparr>mem_allocated = 0, max_mem_allocated = 0, skip_mem_check_final = False,
      free_list = replicate FREE_LIST_SIZE zero_MEMCHECK,
      alloc_list = replicate MAX_ALLOC_LIST zero_MEMCHECK,
      number_alloc_list = 0, n_used = 0, f_next = 0, num_mallocs = 0, num_reallocs = 0,
      log_op = [], mem_err_detect = False, heap = Map.empty\<rparr>"

text \<open>
  What the embedding application can do between start and exit: the calls of the public
  interface, and a write of one byte into a live block (its trailer included).
\<close>

datatype call =
    Malloc size_t string string int
  | Free addr string string int
  | Realloc addr size_t string string int
  | Alloc_dump
  | Skip_mem_dump
  | Write_byte addr nat byte

definition write_byte :: "mstate \<Rightarrow> addr \<Rightarrow> nat \<Rightarrow> byte \<Rightarrow> fatal + mstate" where
  "write_byte s p off b =
     (case heap s p of
        None \<Rightarrow> Inl UNDEFINED
      | Some blk \<Rightarrow>
          if off < length blk then Inr (s\<lparr>heap := (heap s)(p \<mapsto> blk[off := b])\<rparr>)
          else Inl UNDEFINED)"

fun exec_call :: "nat \<Rightarrow> mstate \<Rightarrow> reply \<times> call \<Rightarrow> fatal + mstate" where
  "exec_call MAX_ALLOC_LIST s (r, Malloc size' file func line) =
     (case keepalived_malloc MAX_ALLOC_LIST r s size' file func line of
        Inl e \<Rightarrow> Inl e | Inr (p, s') \<Rightarrow> Inr s')"
| "exec_call MAX_ALLOC_LIST s (r, Free buffer file func line) =
     keepalived_free MAX_ALLOC_LIST r s buffer file func line"
| "exec_call MAX_ALLOC_LIST s (r, Realloc buffer size' file func line) =
     (case keepalived_realloc MAX_ALLOC_LIST r s buffer size' file func line of
        Inl e \<Rightarrow> Inl e | Inr (p, s') \<Rightarrow> Inr s')"
| "exec_call MAX_ALLOC_LIST s (r, Alloc_dump) = Inr (keepalived_alloc_dump s)"
| "exec_call MAX_ALLOC_LIST s (r, Skip_mem_dump) = Inr (skip_mem_dump s)"
| "exec_call MAX_ALLOC_LIST s (r, Write_byte p off b) = write_byte s p off b"

fun run :: "nat \<Rightarrow> mstate \<Rightarrow> (reply \<times> call) list \<Rightarrow> fatal + mstate" where
  "run MAX_ALLOC_LIST s [] = Inr s"
| "run MAX_ALLOC_LIST s (c # cs) =
     (case exec_call MAX_ALLOC_LIST s c of
        Inl e \<Rightarrow> Inl e
      | Inr s' \<Rightarrow> run MAX_ALLOC_LIST s' cs)"

section \<open>Notions used by the properties\<close>

text \<open>The slots in use whose type satisfies \<open>P\<close>, and their number.\<close>

definition slots_of :: "(slot_type \<Rightarrow> bool) \<Rightarrow> mstate \<Rightarrow> MEMCHECK list" where
  "slots_of P s = filter (\<lambda>e. P (mc_type e)) (take (number_alloc_list s) (alloc_list s))"

fun is_badptr :: "slot_type \<Rightarrow> bool" where
  "is_badptr FREE_NULL = True"
| "is_badptr REALLOC_NULL = True"
| "is_badptr FREE_NOT_ALLOC = True"
| "is_badptr REALLOC_NOT_ALLOC = True"
| "is_badptr t = False"

fun is_error :: "slot_type \<Rightarrow> bool" where
  "is_error OVERRUN = True"
| "is_error t = is_badptr t"

text \<open>
  The array bounds the code relies on: the two arrays have their declared lengths, the
  table's fill count and the ring index stay inside them.
\<close>

definition wf_state :: "nat \<Rightarrow> mstate \<Rightarrow> bool" where
  "wf_state MAX_ALLOC_LIST s \<longleftrightarrow>
     length (alloc_list s) = MAX_ALLOC_LIST \<and> number_alloc_list s \<le> MAX_ALLOC_LIST \<and>
     length (free_list s) = FREE_LIST_SIZE \<and> f_next s < FREE_LIST_SIZE"

text \<open>
  The order in which the \<^verbatim>\<open>do ... while\<close> of the forensic lookup visits the ring when
  it starts at index \<open>start\<close>: \<open>start\<close>, \<open>start - 1\<close>, ..., \<open>0\<close>, then
  \<open>FREE_LIST_SIZE - 1\<close> down to \<open>start + 1\<close>.
\<close>

definition scan_order :: "nat \<Rightarrow> nat list" where
  "scan_order start =
     map (\<lambda>k. (start + FREE_LIST_SIZE - k) mod FREE_LIST_SIZE) [0..<FREE_LIST_SIZE]"

text \<open>The ring after the pushes \<open>es\<close> (oldest first) of lines 344 to 352.\<close>

fun ring_push :: "MEMCHECK list \<times> nat \<Rightarrow> MEMCHECK \<Rightarrow> MEMCHECK list \<times> nat" where
  "ring_push (fl, f) e = (fl[f := e], (f + 1) mod FREE_LIST_SIZE)"

definition ring_after :: "MEMCHECK list \<Rightarrow> MEMCHECK list \<times> nat" where
  "ring_after es = foldl ring_push (replicate FREE_LIST_SIZE zero_MEMCHECK, 0) es"

text \<open>
  What the forensic lookup is to find for \<open>buffer\<close>: the first entry, in that order from
  the entry pushed last (index \<open>f - 1\<close>, cyclically), that was pushed by a release of
  \<open>buffer\<close>; and the line to be logged for it, none when there is no such entry.
\<close>

definition last_released :: "mstate \<Rightarrow> addr \<Rightarrow> MEMCHECK option" where
  "last_released s buffer =
     find (\<lambda>e. mc_ptr e = buffer \<and> mc_type e = LAST_FREE)
       (map (\<lambda>j. free_list s ! j)
          (scan_order (ring_prev (f_next s))))"

definition forensic_lines :: "mstate \<Rightarrow> addr \<Rightarrow> nat \<Rightarrow> log_line list" where
  "forensic_lines s buffer nal =
     (case last_released s buffer of
        None \<Rightarrow> []
      | Some e \<Rightarrow>
          [Log_last_released (sint (ucast (mc_size e) :: 32 word)) nal
             (mc_file e) (mc_line e) (mc_func e)])"

text \<open>
  The state \<open>s'\<close> reached from \<open>s\<close>, with the lines written since \<open>s\<close> put after the
  log \<open>l\<close> instead.
\<close>

definition relog :: "log_line list \<Rightarrow> mstate \<Rightarrow> mstate \<Rightarrow> mstate" where
  "relog l s s' = s'\<lparr>log_op := l @ drop (length (log_op s)) (log_op s')\<rparr>"

text \<open>The counter \<^verbatim>\<open>n\<close> is the number of slots in use that are allocated.\<close>

definition table_inv :: "nat \<Rightarrow> mstate \<Rightarrow> bool" where
  "table_inv MAX_ALLOC_LIST s \<longleftrightarrow>
     wf_state MAX_ALLOC_LIST s \<and>
     n_used s = int (length (slots_of (\<lambda>t. t = ALLOCATED) s))"

text \<open>Every error record of \<open>s\<close> is still in its slot, unchanged, in \<open>s'\<close>.\<close>

definition persists :: "mstate \<Rightarrow> mstate \<Rightarrow> bool" where
  "persists s s' \<longleftrightarrow>
     number_alloc_list s \<le> number_alloc_list s' \<and>
     (\<forall>i < number_alloc_list s.
        is_error (mc_type (alloc_list s ! i)) \<longrightarrow> alloc_list s' ! i = alloc_list s ! i)"

text \<open>
  What every call keeps: the array bounds, the error records, and the difference between
  \<^verbatim>\<open>n\<close> and the number of allocated slots.
\<close>

definition step_ok :: "nat \<Rightarrow> mstate \<Rightarrow> mstate \<Rightarrow> bool" where
  "step_ok MAX_ALLOC_LIST s s' \<longleftrightarrow>
     wf_state MAX_ALLOC_LIST s' \<and> persists s s' \<and>
     n_used s' - int (length (slots_of (\<lambda>t. t = ALLOCATED) s')) =
     n_used s - int (length (slots_of (\<lambda>t. t = ALLOCATED) s))"

text \<open>The lines the dump writes for slot \<open>i\<close> holding the record \<open>e\<close>.\<close>

definition dump_lines :: "bool \<Rightarrow> nat \<Rightarrow> nat \<Rightarrow> MEMCHECK \<Rightarrow> log_line list" where
  "dump_lines final nal i e = snd (snd (snd (alloc_log_entry final nal i e (0, 0, 0, []))))"

section \<open>Sample states\<close>

text \<open>
  A table of capacity 4 after one \<^verbatim>\<open>keepalived_malloc(2, ...)\<close> answered with the address
  4096, and the same state after the application has written zeros over the trailer.
\<close>

definition sample_reply :: reply where
  "sample_reply = \<lparr>reply_ptr = 8192, reply_junk = (\<lambda>k. 170)\<rparr>"

definition sample_live :: mstate where
  "sample_live =
     (initial_state 4)
       \<lparr>mem_allocated := 2, max_mem_allocated := 2,
        alloc_list :=
          [\<lparr>mc_type = ALLOCATED, mc_line = 7, mc_func = ''main'', mc_file = ''main.c'',
            mc_ptr = 4096, mc_size = 2\<rparr>,
           zero_MEMCHECK, zero_MEMCHECK, zero_MEMCHECK],
        number_alloc_list := 1, n_used := 1, num_mallocs := 1,
        log_op := [Log_zalloc 0 1 4096 2 ''main.c'' 7 ''main''],
        heap := [4096 \<mapsto> [0, 0] @ ulong_bytes (2 + CHECK_VAL)]\<rparr>"

definition sample_overrun :: mstate where
  "sample_overrun = sample_live\<lparr>heap := [4096 \<mapsto> [0, 0, 0, 0, 0, 0, 0, 0, 0, 0]]\<rparr>"

text \<open>A table of capacity 4 after one \<^verbatim>\<open>keepalived_free(NULL, ...)\<close>.\<close>

definition sample_error :: mstate where
  "sample_error =
     (initial_state 4)
       \<lparr>alloc_list :=
          [\<lparr>mc_type = FREE_NULL, mc_line = 3, mc_func = ''main'', mc_file = ''main.c'',
            mc_ptr = NULL, mc_size = 0\<rparr>,
           zero_MEMCHECK, zero_MEMCHECK, zero_MEMCHECK],
        number_alloc_list := 1,
        log_op := [Log_free_NULL ''main.c'' 3 ''main''],
        mem_err_detect := True\<rparr>"

lemma ulong_bytes_length: "length (ulong_bytes w) = 8"
  by (simp add: ulong_bytes_def)

lemma ulong_low_byte: "ucast (ucast (v :: ulong) :: byte) OR push_bit 8 (drop_bit 8 v) = v"
proof (rule bit_word_eqI)
  fix n
  assume "n < LENGTH(64)"
  then show "bit (ucast (ucast v :: byte) OR push_bit 8 (drop_bit 8 v) :: ulong) n = bit v n"
    by (cases "n < 8") (auto simp add: bit_simps not_less)
qed

lemma bytes_ulong_from:
  "i \<le> 8 \<Longrightarrow>
   foldr (\<lambda>b acc. ucast b OR push_bit 8 acc)
     (map (\<lambda>k. ucast (drop_bit (8 * k) w) :: byte) [i..<8]) (0 :: ulong) = drop_bit (8 * i) w"
proof (induction "8 - i" arbitrary: i)
  case 0
  then have "i = 8" by simp
  then show ?case by (simp add: drop_bit_word_beyond)
next
  case (Suc d)
  then have lt: "i < 8" and d: "d = 8 - Suc i" and le: "Suc i \<le> 8" by simp_all
  have "ucast (ucast (drop_bit (8 * i) w) :: byte) OR push_bit 8 (drop_bit (8 + 8 * i) w)
        = drop_bit (8 * i) w"
    using ulong_low_byte [of "drop_bit (8 * i) w"] by simp
  with Suc.hyps(1) [OF d le] lt show ?case
    by (simp add: upt_rec [of i 8] del: upt_Suc)
qed

lemma bytes_ulong_bytes: "bytes_ulong (ulong_bytes w) = w"
  using bytes_ulong_from [of 0 w] by (simp add: ulong_bytes_def bytes_ulong_def)

lemma load_store_ulong:
  "store_ulong h p off v = Some h' \<Longrightarrow> load_ulong h' p off = Some v"
  by (auto simp: store_ulong_def load_ulong_def ulong_bytes_length bytes_ulong_bytes
      split: if_splits option.splits)

lemma free_entry_loop_ge: "i \<le> free_entry_loop al nal avoid i"
proof (induction al nal avoid i rule: free_entry_loop.induct)
  case (1 al nal avoid i)
  show ?case
    using "1.IH" by (subst free_entry_loop.simps) (auto dest: Suc_leD)
qed

lemma free_entry_loop_le: "i \<le> nal \<Longrightarrow> free_entry_loop al nal avoid i \<le> nal"
proof (induction al nal avoid i rule: free_entry_loop.induct)
  case (1 al nal avoid i)
  show ?case
    using "1.IH" "1.prems" by (subst free_entry_loop.simps) auto
qed

lemma free_entry_loop_found:
  "free_entry_loop al nal avoid i < nal \<Longrightarrow>
   mc_type (al ! free_entry_loop al nal avoid i) = FREE_SLOT
   \<and> int (free_entry_loop al nal avoid i) \<noteq> avoid"
proof (induction al nal avoid i rule: free_entry_loop.induct)
  case (1 al nal avoid i)
  show ?case
    using "1.IH" "1.prems" by (subst (1 2) free_entry_loop.simps, subst (asm) free_entry_loop.simps) (auto split: if_splits)
qed

lemma free_entry_loop_skipped:
  "i \<le> j \<Longrightarrow> j < free_entry_loop al nal avoid i \<Longrightarrow> j < nal \<Longrightarrow>
   \<not> (mc_type (al ! j) = FREE_SLOT \<and> int j \<noteq> avoid)"
proof (induction al nal avoid i rule: free_entry_loop.induct)
  case (1 al nal avoid i)
  from "1.prems" have lt: "i < nal" by simp
  show ?case
  proof (cases "mc_type (al ! i) = FREE_SLOT \<and> int i \<noteq> avoid")
    case True
    with lt have "free_entry_loop al nal avoid i = i"
      by (subst free_entry_loop.simps) simp
    with "1.prems" show ?thesis by simp
  next
    case False
    with lt have eq: "free_entry_loop al nal avoid i = free_entry_loop al nal avoid (Suc i)"
      by (subst free_entry_loop.simps) auto
    show ?thesis
    proof (cases "j = i")
      case True
      with False show ?thesis by simp
    next
      case False
      with "1.prems" have "Suc i \<le> j" by simp
      from "1.IH" [OF lt \<open>\<not> (mc_type (al ! i) = FREE_SLOT \<and> int i \<noteq> avoid)\<close> this]
        "1.prems" eq show ?thesis by simp
    qed
  qed
qed

lemma get_free_alloc_entry_Inr:
  assumes "get_free_alloc_entry M s avoid = Inr (i, s1)"
  shows "s1 = s\<lparr>number_alloc_list := number_alloc_list s1\<rparr>"
    and "i < number_alloc_list s1" and "number_alloc_list s1 < M"
    and "i = free_entry_loop (alloc_list s) (number_alloc_list s) avoid 0"
    and "number_alloc_list s1 = (if i = number_alloc_list s then number_alloc_list s + 1 else number_alloc_list s)"
    and "i \<le> number_alloc_list s"
  using assms free_entry_loop_le [of 0 "number_alloc_list s" "alloc_list s" avoid]
  by (auto simp: get_free_alloc_entry_def Let_def split: if_splits)

lemma zalloc_eq:
  "zalloc r s sz =
     (if reply_ptr r = NULL then Inl EXIT_FAILURE
      else Inr (reply_ptr r,
        s\<lparr>heap := (heap s)(reply_ptr r \<mapsto> replicate (unat sz) 0),
          mem_allocated := mem_allocated s + (sz - 8),
          max_mem_allocated := (if mem_allocated s + (sz - 8) > max_mem_allocated s
             then mem_allocated s + (sz - 8) else max_mem_allocated s)\<rparr>))"
  by (simp add: zalloc_def xalloc_def memset_zero_def malloc_block_def Let_def)

lemma unat_plus8:
  "unat (sz + 8 :: ulong) = (if unat sz + 8 < 2 ^ 64 then unat sz + 8 else unat sz + 8 - 2 ^ 64)"
proof -
  have lt: "unat sz < 2 ^ 64" using unsigned_less [of sz] by simp
  have eq: "unat (sz + 8) = (unat sz + 8) mod 2 ^ 64" by (simp add: unat_word_ariths)
  show ?thesis
  proof (cases "unat sz + 8 < 2 ^ 64")
    case True
    with eq show ?thesis by simp
  next
    case False
    then have "(unat sz + 8) mod 2 ^ 64 = (unat sz + 8 - 2 ^ 64) mod 2 ^ 64"
      by (simp add: le_mod_geq)
    also from lt have "\<dots> = unat sz + 8 - 2 ^ 64" by simp
    finally show ?thesis using eq False by simp
  qed
qed

lemma keepalived_malloc_eq:
  "keepalived_malloc M r s sz file func line =
     (if reply_ptr r = NULL then Inl EXIT_FAILURE
      else if 2 ^ 64 \<le> unat sz + 8 then Inl UNDEFINED
      else case get_free_alloc_entry M s (- 1) of
        Inl e \<Rightarrow> Inl e
      | Inr (i, s1) \<Rightarrow>
          Inr (reply_ptr r,
            s\<lparr>heap := (heap s)(reply_ptr r \<mapsto>
                 replicate (unat sz) 0 @ ulong_bytes (sz + CHECK_VAL)),
              mem_allocated := mem_allocated s + sz,
              max_mem_allocated := (if mem_allocated s + sz > max_mem_allocated s
                 then mem_allocated s + sz else max_mem_allocated s),
              number_alloc_list := number_alloc_list s1,
              alloc_list := (alloc_list s)
                [i := \<lparr>mc_type = ALLOCATED, mc_line = line, mc_func = func, mc_file = file,
                        mc_ptr = reply_ptr r, mc_size = sz\<rparr>],
              log_op := log_op s @
                [Log_zalloc i (number_alloc_list s1) (reply_ptr r) sz file line func],
              n_used := n_used s + 1, num_mallocs := num_mallocs s + 1\<rparr>))"
proof -
  have upd: "\<And>e :: MEMCHECK. e\<lparr>mc_ptr := reply_ptr r, mc_size := sz, mc_file := file,
       mc_func := func, mc_line := line, mc_type := ALLOCATED\<rparr> =
     \<lparr>mc_type = ALLOCATED, mc_line = line, mc_func = func, mc_file = file,
                        mc_ptr = reply_ptr r, mc_size = sz\<rparr>"
    by simp
  have lt: "unat sz < 2 ^ 64" using unsigned_less [of sz] by simp
  show ?thesis
  proof (cases "reply_ptr r = NULL")
    case True
    then show ?thesis by (simp add: keepalived_malloc_def zalloc_eq)
  next
    case nn: False
    show ?thesis
    proof (cases "(2::nat) ^ 64 \<le> unat sz + 8")
      case True
      with lt have "\<not> unat sz + 8 \<le> unat (sz + 8)"
        by (simp add: unat_plus8)
      with nn True show ?thesis
        by (simp add: keepalived_malloc_def zalloc_eq store_ulong_def)
    next
      case False
      then have "unat (sz + 8) = unat sz + 8" by (simp add: unat_plus8)
      with nn False show ?thesis
        by (simp add: keepalived_malloc_def zalloc_eq store_ulong_def Let_def upd
            get_free_alloc_entry_def)
    qed
  qed
qed

text \<open>
  C9.  Whatever \<^verbatim>\<open>keepalived_malloc\<close> returns is the address \<^verbatim>\<open>malloc\<close> gave, is
  not null, and is the base of a live block of \<open>size + 8\<close> bytes whose first \<open>size\<close>
  bytes (the region the caller sees) are all zero.  The call does not return only when
  \<^verbatim>\<open>malloc\<close> failed, when \<open>size + 8\<close> wraps around (the trailer would be written
  outside the block), or when the table is full.
\<close>

theorem keepalived_malloc_zero_filled:
  "case keepalived_malloc M r s sz file func line of
     Inl e \<Rightarrow>
       reply_ptr r = NULL \<or> 2 ^ 64 \<le> unat sz + 8 \<or> get_free_alloc_entry M s (- 1) = Inl e
   | Inr (buf, s') \<Rightarrow>
       buf = reply_ptr r \<and> buf \<noteq> NULL \<and>
       (\<exists>blk. heap s' buf = Some blk \<and> length blk = unat sz + 8 \<and>
              take (unat sz) blk = replicate (unat sz) 0)"
  by (simp add: keepalived_malloc_eq ulong_bytes_length split: sum.splits prod.splits)

subsection \<open>The search for an allocated slot\<close>

lemma allocated_loop_le: "i \<le> nal \<Longrightarrow> allocated_loop al nal buffer i \<le> nal"
proof (induction al nal buffer i rule: allocated_loop.induct)
  case (1 al nal buffer i)
  show ?case
    using "1.IH" "1.prems" by (subst allocated_loop.simps) auto
qed

lemma allocated_loop_found:
  "allocated_loop al nal buffer i < nal \<Longrightarrow>
   mc_type (al ! allocated_loop al nal buffer i) = ALLOCATED
   \<and> mc_ptr (al ! allocated_loop al nal buffer i) = buffer"
proof (induction al nal buffer i rule: allocated_loop.induct)
  case (1 al nal buffer i)
  show ?case
  proof (cases "i < nal \<and> \<not> (mc_type (al ! i) = ALLOCATED \<and> mc_ptr (al ! i) = buffer)")
    case True
    then have eq: "allocated_loop al nal buffer i = allocated_loop al nal buffer (Suc i)"
      by (subst allocated_loop.simps) auto
    from True "1.IH" "1.prems" show ?thesis unfolding eq by blast
  next
    case False
    then have "allocated_loop al nal buffer i = i"
      by (subst allocated_loop.simps) auto
    with False "1.prems" show ?thesis by auto
  qed
qed

lemma allocated_loop_none:
  "i \<le> nal \<Longrightarrow>
   allocated_loop al nal buffer i = nal \<longleftrightarrow>
   (\<forall>j. i \<le> j \<and> j < nal \<longrightarrow> \<not> (mc_type (al ! j) = ALLOCATED \<and> mc_ptr (al ! j) = buffer))"
proof (induction al nal buffer i rule: allocated_loop.induct)
  case (1 al nal buffer i)
  show ?case
  proof (cases "i < nal")
    case False
    with "1.prems" show ?thesis by (subst allocated_loop.simps) auto
  next
    case lt: True
    show ?thesis
    proof (cases "mc_type (al ! i) = ALLOCATED \<and> mc_ptr (al ! i) = buffer")
      case True
      with lt have "allocated_loop al nal buffer i = i"
        by (subst allocated_loop.simps) auto
      with lt True show ?thesis by auto
    next
      case False
      with lt have eq: "allocated_loop al nal buffer i = allocated_loop al nal buffer (Suc i)"
        by (subst allocated_loop.simps) auto
      from lt have "Suc i \<le> nal" by simp
      have "(\<forall>j. i \<le> j \<and> j < nal \<longrightarrow>
               \<not> (mc_type (al ! j) = ALLOCATED \<and> mc_ptr (al ! j) = buffer)) \<longleftrightarrow>
            (\<forall>j. Suc i \<le> j \<and> j < nal \<longrightarrow>
               \<not> (mc_type (al ! j) = ALLOCATED \<and> mc_ptr (al ! j) = buffer))"
        using False by (metis Suc_leI le_neq_implies_less Suc_leD)
      with "1.IH" [OF lt False \<open>Suc i \<le> nal\<close>] show ?thesis
        unfolding eq by simp
    qed
  qed
qed

lemma allocated_loop_no_slot:
  "allocated_loop (alloc_list s) (number_alloc_list s) buffer 0 = number_alloc_list s \<longleftrightarrow>
   (\<forall>j < number_alloc_list s.
      \<not> (mc_type (alloc_list s ! j) = ALLOCATED \<and> mc_ptr (alloc_list s ! j) = buffer))"
  using allocated_loop_none [of 0 "number_alloc_list s" "alloc_list s" buffer] by simp

subsection \<open>The forensic lookup\<close>

lemma ring_index:
  assumes "start < 256" "k \<le> 256"
  shows "(start + 256 - k) mod 256 = (if k \<le> start then start - k else start + 256 - k :: nat)"
proof (cases "k \<le> start")
  case True
  then have "start + 256 - k = (start - k) + 256" by simp
  with True assms show ?thesis by (simp del: add_diff_assoc add_diff_assoc2)
next
  case False
  with assms show ?thesis by simp
qed

lemma ring_index_step:
  assumes "start < 256" "k < 256"
  shows "(if (start + 256 - k) mod 256 \<noteq> 0 then (start + 256 - k) mod 256 else 256) - 1
         = (start + 256 - Suc k) mod (256::nat)"
    and "(start + 256 - Suc k) mod 256 = start \<longleftrightarrow> Suc k = 256"
    and "(start + 256 - k) mod 256 < (256::nat)"
proof -
  have a: "(start + 256 - Suc k) mod 256 =
      (if Suc k \<le> start then start - Suc k else start + 256 - Suc k)"
    by (rule ring_index) (use assms in simp_all)
  have b: "(start + 256 - k) mod 256 = (if k \<le> start then start - k else start + 256 - k)"
    by (rule ring_index) (use assms in simp_all)
  show "(if (start + 256 - k) mod 256 \<noteq> 0 then (start + 256 - k) mod 256 else 256) - 1
         = (start + 256 - Suc k) mod (256::nat)"
    unfolding a b using assms by (auto split: if_splits)
  show "(start + 256 - Suc k) mod 256 = start \<longleftrightarrow> Suc k = 256"
    unfolding a using assms by (auto split: if_splits)
  show "(start + 256 - k) mod 256 < (256::nat)"
    by simp
qed
lemma last_free_loop_from:
  assumes len: "length fl = 256" and start: "start < 256"
  shows "k < 256 \<Longrightarrow>
    last_free_loop fl start buffer ((start + 256 - k) mod 256) =
    Inr (find (\<lambda>j. mc_ptr (fl ! j) = buffer \<and> mc_type (fl ! j) = LAST_FREE)
           (map (\<lambda>k. (start + 256 - k) mod 256) [k..<256]))"
proof (induction "256 - k" arbitrary: k)
  case 0
  then show ?case by simp
next
  case (Suc d)
  let ?j = "(start + 256 - k) mod 256"
  let ?P = "\<lambda>j. mc_ptr (fl ! j) = buffer \<and> mc_type (fl ! j) = LAST_FREE"
  from Suc.prems have k: "k < 256" .
  note st = ring_index_step [OF start k]
  have upt: "[k..<256] = k # [Suc k..<256]"
    using k by (simp add: upt_rec)
  have unf: "last_free_loop fl start buffer ?j =
     (if ?P ?j then Inr (Some ?j)
      else if (start + 256 - Suc k) mod 256 \<noteq> start
           then last_free_loop fl start buffer ((start + 256 - Suc k) mod 256)
           else Inr None)"
    using len start st(3) by (subst last_free_loop.simps)
      (simp only: FREE_LIST_SIZE_def ring_prev_def st(1) Let_def not_le [symmetric] if_False
        simp_thms)
  show ?case
  proof (cases "?P ?j")
    case True
    then show ?thesis unfolding unf upt by simp
  next
    case False
    show ?thesis
    proof (cases "Suc k = 256")
      case True
      with False st(2) show ?thesis unfolding unf upt by auto
    next
      case nl: False
      with k have lt: "Suc k < 256" by simp
      from Suc.hyps(2) have d: "d = 256 - Suc k" by simp
      from st(2) nl have ne: "(start + 256 - Suc k) mod 256 \<noteq> start" by blast
      have "last_free_loop fl start buffer ?j =
          last_free_loop fl start buffer ((start + 256 - Suc k) mod 256)"
        by (simp only: unf False ne if_False if_True simp_thms)
      also have "\<dots> = Inr (find ?P (map (\<lambda>k. (start + 256 - k) mod 256) [Suc k..<256]))"
        by (rule Suc.hyps(1) [OF d lt])
      also have "\<dots> = Inr (find ?P (map (\<lambda>k. (start + 256 - k) mod 256) [k..<256]))"
        unfolding upt using False by auto
      finally show ?thesis .
    qed
  qed
qed

lemma last_free_loop_find:
  assumes "length fl = FREE_LIST_SIZE" and "start < FREE_LIST_SIZE"
  shows "last_free_loop fl start buffer start =
    Inr (find (\<lambda>j. mc_ptr (fl ! j) = buffer \<and> mc_type (fl ! j) = LAST_FREE) (scan_order start))"
  using last_free_loop_from [of fl start 0 buffer] assms
  by (simp add: scan_order_def FREE_LIST_SIZE_def)

lemma find_map_nth:
  "map_option (\<lambda>j. xs ! j) (find (\<lambda>j. P (xs ! j)) js) = find P (map (\<lambda>j. xs ! j) js)"
  by (induction js) auto

subsection \<open>The blocks of \<open>keepalived_free_realloc_common\<close> in closed form\<close>

lemma MEMCHECK_all_fields:
  "(e :: MEMCHECK)\<lparr>mc_ptr := p, mc_size := sz, mc_file := file, mc_func := func,
      mc_line := line, mc_type := t\<rparr> =
   \<lparr>mc_type = t, mc_line = line, mc_func = func, mc_file = file, mc_ptr = p, mc_size = sz\<rparr>"
  by simp

lemma get_free_alloc_entry_cases:
  obtains (full) "get_free_alloc_entry M s avoid = Inl ASSERT_FAILED"
  | (slot) i where
      "get_free_alloc_entry M s avoid =
         Inr (i, s\<lparr>number_alloc_list :=
                    (if i = number_alloc_list s then number_alloc_list s + 1
                     else number_alloc_list s)\<rparr>)"
      "i = free_entry_loop (alloc_list s) (number_alloc_list s) avoid 0"
proof -
  let ?i = "free_entry_loop (alloc_list s) (number_alloc_list s) avoid 0"
  let ?n = "if ?i = number_alloc_list s then number_alloc_list s + 1 else number_alloc_list s"
  have "get_free_alloc_entry M s avoid =
      (if M \<le> ?n then Inl ASSERT_FAILED else Inr (?i, s\<lparr>number_alloc_list := ?n\<rparr>))"
    by (simp add: get_free_alloc_entry_def Let_def)
  then show thesis
    by (cases "M \<le> ?n") (use full slot [of ?i] in simp_all)
qed

lemma ring_prev_less: "f < FREE_LIST_SIZE \<Longrightarrow> ring_prev f < FREE_LIST_SIZE"
  by (auto simp: FREE_LIST_SIZE_def ring_prev_def)

lemma forensic_lines_find:
  "forensic_lines s buffer nal =
     (case find (\<lambda>j. mc_ptr (free_list s ! j) = buffer \<and> mc_type (free_list s ! j) = LAST_FREE)
             (scan_order (ring_prev (f_next s))) of
        None \<Rightarrow> []
      | Some j \<Rightarrow>
          [Log_last_released (sint (ucast (mc_size (free_list s ! j)) :: 32 word)) nal
             (mc_file (free_list s ! j)) (mc_line (free_list s ! j))
             (mc_func (free_list s ! j))])"
  unfolding forensic_lines_def last_released_def
    find_map_nth [of "free_list s" "\<lambda>e. mc_ptr e = buffer \<and> mc_type e = LAST_FREE", symmetric]
  by (simp split: option.split)

lemma common_not_found_eq:
  assumes "length (free_list s) = FREE_LIST_SIZE" and "f_next s < FREE_LIST_SIZE"
  shows "common_not_found M s buffer sz file func line =
     (case get_free_alloc_entry M s (- 1) of
        Inl e \<Rightarrow> Inl e
      | Inr (i, s1) \<Rightarrow>
          Inr (NULL,
            s\<lparr>number_alloc_list := number_alloc_list s1,
              alloc_list := (alloc_list s)
                [i := \<lparr>mc_type = (if sz = 0 then FREE_NOT_ALLOC else REALLOC_NOT_ALLOC),
                        mc_line = line, mc_func = func, mc_file = file,
                        mc_ptr = buffer, mc_size = sz\<rparr>],
              mem_err_detect := True,
              log_op := log_op s @
                (if sz = 0 then Log_free_ERROR buffer file line func
                 else Log_realloc_ERROR buffer sz file line func)
                # forensic_lines s buffer (number_alloc_list s1)\<rparr>))"
proof (cases rule: get_free_alloc_entry_cases [of M s "- 1"])
  case full
  then show ?thesis by (simp add: common_not_found_def)
next
  case (slot i)
  let ?start = "ring_prev (f_next s)"
  have loop: "last_free_loop (free_list s) ?start buffer ?start =
      Inr (find (\<lambda>j. mc_ptr (free_list s ! j) = buffer \<and> mc_type (free_list s ! j) = LAST_FREE)
             (scan_order ?start))"
    by (rule last_free_loop_find [OF assms(1) ring_prev_less [OF assms(2)]])
  show ?thesis
    unfolding common_not_found_def slot(1)
    by (simp add: Let_def MEMCHECK_all_fields loop forensic_lines_find split: option.split)
qed

lemma MEMCHECK_all_fields':
  "(e :: MEMCHECK)\<lparr>mc_file := file, mc_line := line, mc_func := func, mc_ptr := p,
      mc_type := t, mc_size := sz\<rparr> =
   \<lparr>mc_type = t, mc_line = line, mc_func = func, mc_file = file, mc_ptr = p, mc_size = sz\<rparr>"
  by simp

lemma common_NULL_eq:
  "common_NULL M r s sz file func line =
     (case get_free_alloc_entry M s (- 1) of
        Inl e \<Rightarrow> Inl e
      | Inr (i, s1) \<Rightarrow>
          if sz = 0 then
            Inr (NULL,
              s\<lparr>number_alloc_list := number_alloc_list s1,
                alloc_list := (alloc_list s)
                  [i := \<lparr>mc_type = FREE_NULL, mc_line = line, mc_func = func,
                          mc_file = file, mc_ptr = NULL, mc_size = 0\<rparr>],
                log_op := log_op s @ [Log_free_NULL file line func],
                mem_err_detect := True\<rparr>)
          else
            keepalived_malloc M r
              (s\<lparr>number_alloc_list := number_alloc_list s1,
                 alloc_list := (alloc_list s)
                   [i := \<lparr>mc_type = REALLOC_NULL, mc_line = line, mc_func = func,
                           mc_file = file, mc_ptr = NULL, mc_size = 0\<rparr>],
                 log_op := log_op s @ [Log_realloc_NULL sz file line func],
                 mem_err_detect := True\<rparr>)
              sz file func line)"
proof (cases rule: get_free_alloc_entry_cases [of M s "- 1"])
  case full
  then show ?thesis by (simp add: common_NULL_def)
next
  case (slot i)
  show ?thesis
    unfolding common_NULL_def slot(1)
    by (simp add: Let_def MEMCHECK_all_fields)
qed

lemma dump_buffer_after_load:
  assumes "load_ulong h p (unat (sz :: size_t)) = Some v"
  shows "\<exists>blk. h p = Some blk \<and> unat sz + 8 \<le> length blk \<and>
           dump_buffer h p (unat (sz + 8)) = Some (Log_dump_buffer (take (unat (sz + 8)) blk))"
proof -
  from assms obtain blk where blk: "h p = Some blk" "unat sz + 8 \<le> length blk"
    by (auto simp: load_ulong_def split: if_splits option.splits)
  have "unat (sz + 8) \<le> unat sz + 8"
    using unat_plus8 [of sz] by (cases "unat sz + 8 < 2 ^ 64") simp_all
  with blk show ?thesis by (simp add: dump_buffer_def)
qed

lemma common_found_free_ok:
  assumes i: "i < length (alloc_list s)"
    and load: "load_ulong (heap s) buffer (unat (mc_size (alloc_list s ! i))) =
               Some (mc_size (alloc_list s ! i) + CHECK_VAL)"
  shows "common_found M r s i buffer 0 file func line =
     Inr (NULL,
       s\<lparr>alloc_list := (alloc_list s)[i := (alloc_list s ! i)\<lparr>mc_type := FREE_SLOT\<rparr>],
         mem_allocated := mem_allocated s - mc_size (alloc_list s ! i),
         heap := (heap s)(buffer := None),
         log_op := log_op s @
           [Log_free i (number_alloc_list s) buffer (mc_size (alloc_list s ! i)) file line func],
         free_list := (free_list s)
           [f_next s := \<lparr>mc_type = LAST_FREE, mc_line = line, mc_func = func, mc_file = file,
                         mc_ptr = buffer, mc_size = of_nat i\<rparr>],
         f_next := (f_next s + 1) mod FREE_LIST_SIZE,
         n_used := n_used s - 1\<rparr>)"
proof -
  from load obtain blk where blk: "heap s buffer = Some blk"
    by (auto simp: load_ulong_def split: if_splits option.splits)
  show ?thesis
    using i blk by (simp add: common_found_def load common_free_def c_free_def Let_def
        MEMCHECK_all_fields')
qed

lemma common_found_free_overrun:
  assumes i: "i < length (alloc_list s)"
    and ptr: "mc_ptr (alloc_list s ! i) = buffer"
    and load: "load_ulong (heap s) buffer (unat (mc_size (alloc_list s ! i))) = Some trailer"
    and bad: "trailer \<noteq> mc_size (alloc_list s ! i) + CHECK_VAL"
  shows "common_found M r s i buffer 0 file func line =
     Inr (NULL,
       s\<lparr>alloc_list := (alloc_list s)[i := (alloc_list s ! i)\<lparr>mc_type := OVERRUN\<rparr>],
         mem_err_detect := True,
         mem_allocated := mem_allocated s - mc_size (alloc_list s ! i),
         heap := (heap s)(buffer := None),
         log_op := log_op s @
           [Log_corrupt True i (number_alloc_list s) buffer (mc_size (alloc_list s ! i))
              file line func,
            Log_dump_buffer (take (unat (mc_size (alloc_list s ! i) + 8)) (the (heap s buffer))),
            Log_Check_sum,
            Log_dump_buffer (ulong_bytes (mc_size (alloc_list s ! i) + CHECK_VAL)),
            Log_free i (number_alloc_list s) buffer (mc_size (alloc_list s ! i)) file line func],
         free_list := (free_list s)
           [f_next s := \<lparr>mc_type = LAST_FREE, mc_line = line, mc_func = func, mc_file = file,
                         mc_ptr = buffer, mc_size = of_nat i\<rparr>],
         f_next := (f_next s + 1) mod FREE_LIST_SIZE,
         n_used := n_used s - 1\<rparr>)"
proof -
  from dump_buffer_after_load [OF load] obtain blk where
    blk: "heap s buffer = Some blk"
    and dump: "dump_buffer (heap s) buffer (unat (mc_size (alloc_list s ! i) + 8)) =
       Some (Log_dump_buffer (take (unat (mc_size (alloc_list s ! i) + 8)) blk))"
    by blast
  show ?thesis
    using i blk bad ptr
    by (simp add: common_found_def load common_overrun_def dump common_free_def c_free_def Let_def
        MEMCHECK_all_fields')
qed

subsection \<open>Releasing a pointer\<close>

lemma slots_of_ptr:
  assumes "number_alloc_list s \<le> length (alloc_list s)"
  shows "buffer \<in> mc_ptr ` set (slots_of P s) \<longleftrightarrow>
    (\<exists>j < number_alloc_list s. P (mc_type (alloc_list s ! j)) \<and> mc_ptr (alloc_list s ! j) = buffer)"
proof -
  have "x \<in> set (take (number_alloc_list s) (alloc_list s)) \<longleftrightarrow>
      (\<exists>j < number_alloc_list s. alloc_list s ! j = x)" for x
    using assms by (auto simp: in_set_conv_nth)
  then show ?thesis
    by (auto simp: slots_of_def image_iff)
qed

lemma unknown_pointer:
  assumes "wf_state M s"
  shows "buffer \<notin> mc_ptr ` set (slots_of (\<lambda>t. t = ALLOCATED) s) \<longleftrightarrow>
    allocated_loop (alloc_list s) (number_alloc_list s) buffer 0 = number_alloc_list s"
  using assms by (auto simp: slots_of_ptr wf_state_def allocated_loop_no_slot)

lemma initial_state_wf: "wf_state M (initial_state M)"
  by (simp add: wf_state_def initial_state_def FREE_LIST_SIZE_def)

lemma keepalived_free_unknown:
  assumes wf: "wf_state M s" and nn: "buffer \<noteq> NULL"
    and unknown: "buffer \<notin> mc_ptr ` set (slots_of (\<lambda>t. t = ALLOCATED) s)"
  shows "keepalived_free M r s buffer file func line =
     (case get_free_alloc_entry M s (- 1) of
        Inl e \<Rightarrow> Inl e
      | Inr (i, s1) \<Rightarrow>
          Inr (s\<lparr>number_alloc_list := number_alloc_list s1,
                alloc_list := (alloc_list s)
                  [i := \<lparr>mc_type = FREE_NOT_ALLOC, mc_line = line, mc_func = func,
                          mc_file = file, mc_ptr = buffer, mc_size = 0\<rparr>],
                mem_err_detect := True,
                log_op := log_op s @
                  Log_free_ERROR buffer file line func
                  # forensic_lines s buffer (number_alloc_list s1)\<rparr>))"
proof -
  from wf have fl: "length (free_list s) = FREE_LIST_SIZE" "f_next s < FREE_LIST_SIZE"
    by (simp_all add: wf_state_def)
  from unknown have "allocated_loop (alloc_list s) (number_alloc_list s) buffer 0 =
      number_alloc_list s"
    by (simp add: unknown_pointer [OF wf])
  with nn show ?thesis
    by (simp add: keepalived_free_def keepalived_free_realloc_common_def
        common_not_found_eq [OF fl] split: sum.splits)
qed

text \<open>
  C2.  A release of a non-null pointer that no slot in use holds as \<open>ALLOCATED\<close>:
  when the table has no room for one more record the \<^verbatim>\<open>assert\<close> of
  \<^verbatim>\<open>get_free_alloc_entry\<close> stops the process; otherwise the call returns, and the state
  it leaves differs from the old one in four places only.  The slot \<open>i\<close> found by
  \<^verbatim>\<open>get_free_alloc_entry\<close> holds a \<open>FREE_NOT_ALLOC\<close> record of the pointer and the call
  site, the error bit is set, and the log has the error line followed by what the forensic
  lookup in the ring gives.  The heap is the old one (the underlying \<^verbatim>\<open>free\<close> was not
  called, and the outcome is never \<open>UNDEFINED\<close>), and so are the ring and the counters.
\<close>

theorem free_not_allocated_recorded:
  assumes "wf_state M s" and "buffer \<noteq> NULL"
    and "buffer \<notin> mc_ptr ` set (slots_of (\<lambda>t. t = ALLOCATED) s)"
  shows "case keepalived_free M r s buffer fname func line of
     Inl e \<Rightarrow> e = ASSERT_FAILED \<and> get_free_alloc_entry M s (- 1) = Inl ASSERT_FAILED
   | Inr s' \<Rightarrow>
       (\<exists>i s1. get_free_alloc_entry M s (- 1) = Inr (i, s1) \<and>
          s' = s\<lparr>number_alloc_list := number_alloc_list s1,
                 alloc_list := (alloc_list s)
                   [i := \<lparr>mc_type = FREE_NOT_ALLOC, mc_line = line, mc_func = func,
                           mc_file = fname, mc_ptr = buffer, mc_size = 0\<rparr>],
                 mem_err_detect := True,
                 log_op := log_op s @
                   Log_free_ERROR buffer fname line func
                   # forensic_lines s buffer (number_alloc_list s1)\<rparr> \<and>
          alloc_list s' ! i =
            \<lparr>mc_type = FREE_NOT_ALLOC, mc_line = line, mc_func = func,
             mc_file = fname, mc_ptr = buffer, mc_size = 0\<rparr> \<and>
          i < number_alloc_list s') \<and>
       mem_err_detect s' \<and> heap s' = heap s \<and>
       free_list s' = free_list s \<and> f_next s' = f_next s \<and>
       n_used s' = n_used s \<and> mem_allocated s' = mem_allocated s"
proof (cases rule: get_free_alloc_entry_cases [of M s "- 1"])
  case full
  then show ?thesis by (simp add: keepalived_free_unknown [OF assms])
next
  case (slot i)
  from get_free_alloc_entry_Inr(2,3) [OF slot(1)] assms(1)
  have "i < length (alloc_list s)" by (simp add: wf_state_def split: if_splits)
  with slot(1) get_free_alloc_entry_Inr(2) [OF slot(1)] show ?thesis
    by (simp add: keepalived_free_unknown [OF assms])
qed

theorem free_not_allocated_recorded_witness:
  "wf_state 4 (initial_state 4) \<and> (4096 :: addr) \<noteq> NULL \<and>
   4096 \<notin> mc_ptr ` set (slots_of (\<lambda>t. t = ALLOCATED) (initial_state 4)) \<and>
   keepalived_free 4 \<lparr>reply_ptr = 0, reply_junk = (\<lambda>k. 0)\<rparr> (initial_state 4) 4096
       ''main.c'' ''main'' 12 =
     Inr ((initial_state 4)
       \<lparr>number_alloc_list := 1,
        alloc_list := (alloc_list (initial_state 4))
          [0 := \<lparr>mc_type = FREE_NOT_ALLOC, mc_line = 12, mc_func = ''main'',
                  mc_file = ''main.c'', mc_ptr = 4096, mc_size = 0\<rparr>],
        mem_err_detect := True,
        log_op := [Log_free_ERROR 4096 ''main.c'' 12 ''main'']\<rparr>)"
proof -
  let ?s = "initial_state 4"
  have h1: "wf_state 4 ?s" by (rule initial_state_wf)
  have h2: "(4096 :: addr) \<noteq> NULL" by simp
  have h3: "4096 \<notin> mc_ptr ` set (slots_of (\<lambda>t. t = ALLOCATED) ?s)"
    by (simp add: slots_of_def initial_state_def)
  have g: "get_free_alloc_entry 4 ?s (- 1) = Inr (0, ?s\<lparr>number_alloc_list := 1\<rparr>)"
    by (simp add: get_free_alloc_entry_def free_entry_loop.simps initial_state_def)
  have nf: "find (\<lambda>e. mc_ptr e = (4096 :: addr) \<and> mc_type e = LAST_FREE)
       (map (\<lambda>j. replicate FREE_LIST_SIZE zero_MEMCHECK ! j) (scan_order k)) = None" for k
    by (simp add: find_None_iff scan_order_def zero_MEMCHECK_def FREE_LIST_SIZE_def)
  have f: "forensic_lines ?s 4096 n = []" for n
    by (simp add: forensic_lines_def last_released_def initial_state_def nf)
  note free_not_allocated_recorded [OF h1 h2 h3,
      where r = "\<lparr>reply_ptr = 0, reply_junk = (\<lambda>k. 0)\<rparr>" and fname = "''main.c''"
        and func = "''main''" and line = 12]
  moreover have l: "log_op ?s = []" by (simp add: initial_state_def)
  ultimately show ?thesis
    using h1 h2 h3 by (auto simp: g f split: sum.splits)
qed

lemma allocated_loop_first:
  assumes "i < nal" and "mc_type (al ! i) = ALLOCATED" and "mc_ptr (al ! i) = buffer"
    and "\<forall>j < i. \<not> (mc_type (al ! j) = ALLOCATED \<and> mc_ptr (al ! j) = buffer)"
  shows "allocated_loop al nal buffer 0 = i"
proof -
  have "k \<le> i \<Longrightarrow> allocated_loop al nal buffer k = i" for k
  proof (induction "i - k" arbitrary: k)
    case 0
    with assms show ?case by (subst allocated_loop.simps) simp
  next
    case (Suc d)
    then have "k < i" by simp
    with assms(4) have "\<not> (mc_type (al ! k) = ALLOCATED \<and> mc_ptr (al ! k) = buffer)" by blast
    moreover from \<open>k < i\<close> assms(1) have "k < nal" by simp
    ultimately have "allocated_loop al nal buffer k = allocated_loop al nal buffer (Suc k)"
      by (subst allocated_loop.simps) auto
    also from Suc \<open>k < i\<close> have "\<dots> = i" by (intro Suc.hyps(1)) simp_all
    finally show ?case .
  qed
  then show ?thesis by simp
qed

lemma keepalived_free_overrun:
  assumes wf: "wf_state M s" and nn: "buffer \<noteq> NULL"
    and i: "i < number_alloc_list s"
    and slot: "mc_type (alloc_list s ! i) = ALLOCATED" "mc_ptr (alloc_list s ! i) = buffer"
    and first: "\<forall>j < i. \<not> (mc_type (alloc_list s ! j) = ALLOCATED \<and>
                              mc_ptr (alloc_list s ! j) = buffer)"
    and load: "load_ulong (heap s) buffer (unat (mc_size (alloc_list s ! i))) = Some trailer"
    and bad: "trailer \<noteq> mc_size (alloc_list s ! i) + CHECK_VAL"
  shows "keepalived_free M r s buffer file func line =
     Inr (s\<lparr>alloc_list := (alloc_list s)[i := (alloc_list s ! i)\<lparr>mc_type := OVERRUN\<rparr>],
         mem_err_detect := True,
         mem_allocated := mem_allocated s - mc_size (alloc_list s ! i),
         heap := (heap s)(buffer := None),
         log_op := log_op s @
           [Log_corrupt True i (number_alloc_list s) buffer (mc_size (alloc_list s ! i))
              file line func,
            Log_dump_buffer (take (unat (mc_size (alloc_list s ! i) + 8)) (the (heap s buffer))),
            Log_Check_sum,
            Log_dump_buffer (ulong_bytes (mc_size (alloc_list s ! i) + CHECK_VAL)),
            Log_free i (number_alloc_list s) buffer (mc_size (alloc_list s ! i)) file line func],
         free_list := (free_list s)
           [f_next s := \<lparr>mc_type = LAST_FREE, mc_line = line, mc_func = func, mc_file = file,
                         mc_ptr = buffer, mc_size = of_nat i\<rparr>],
         f_next := (f_next s + 1) mod FREE_LIST_SIZE,
         n_used := n_used s - 1\<rparr>)"
proof -
  have loop: "allocated_loop (alloc_list s) (number_alloc_list s) buffer 0 = i"
    by (rule allocated_loop_first [OF i slot first])
  from wf i have len: "i < length (alloc_list s)" by (simp add: wf_state_def)
  from nn i show ?thesis
    by (simp add: keepalived_free_def keepalived_free_realloc_common_def loop
        common_found_free_overrun [OF len slot(2) load bad])
qed

lemma bytes_ulong_zeros: "bytes_ulong [0, 0, 0, 0, 0, 0, 0, 0] = 0"
  by (simp add: bytes_ulong_def)

lemma sample_overrun_facts:
  "wf_state 4 sample_overrun"
  "number_alloc_list sample_overrun = 1"
  "alloc_list sample_overrun ! 0 =
     \<lparr>mc_type = ALLOCATED, mc_line = 7, mc_func = ''main'', mc_file = ''main.c'',
      mc_ptr = 4096, mc_size = 2\<rparr>"
  "load_ulong (heap sample_overrun) 4096 2 = Some 0"
  "heap sample_overrun 4096 = Some [0, 0, 0, 0, 0, 0, 0, 0, 0, 0]"
  "n_used sample_overrun = 1" "mem_allocated sample_overrun = 2"
  "f_next sample_overrun = 0"
  by (simp_all add: sample_overrun_def sample_live_def initial_state_def wf_state_def
      FREE_LIST_SIZE_def load_ulong_def bytes_ulong_zeros)

lemma check_val_2: "(0 :: ulong) \<noteq> 2 + CHECK_VAL"
  by (simp add: CHECK_VAL_def)

text \<open>
  C3, as the code has it.  A release of a pointer held by the allocated slot \<open>i\<close> (the first
  such slot) whose trailer differs from \<open>size + CHECK_VAL\<close> returns normally.  The overrun
  is logged (the \<open>corrupt\<close> line, the dump of the buffer and the expected check sum) and
  the error bit is set; the underlying \<^verbatim>\<open>free\<close> is still called, so the block leaves the
  heap; \<^verbatim>\<open>n\<close> goes down by one and \<^verbatim>\<open>mem_allocated\<close> by the slot's size; the ring gets
  an entry holding the pointer, the call site and the index \<open>i\<close>.  The slot itself is
  marked \<open>OVERRUN\<close>, not \<open>FREE_SLOT\<close>: the \<^verbatim>\<open>else if\<close> that frees the slot is the
  branch for an intact trailer.
\<close>

theorem free_overrun_recorded:
  assumes "wf_state M s" and "buffer \<noteq> NULL"
    and "i < number_alloc_list s"
    and "mc_type (alloc_list s ! i) = ALLOCATED" and "mc_ptr (alloc_list s ! i) = buffer"
    and "\<forall>j < i. \<not> (mc_type (alloc_list s ! j) = ALLOCATED \<and>
                       mc_ptr (alloc_list s ! j) = buffer)"
    and "load_ulong (heap s) buffer (unat (mc_size (alloc_list s ! i))) = Some trailer"
    and "trailer \<noteq> mc_size (alloc_list s ! i) + CHECK_VAL"
  shows "\<exists>s'. keepalived_free M r s buffer fname func line = Inr s' \<and>
    mem_err_detect s' \<and>
    log_op s' = log_op s @
      [Log_corrupt True i (number_alloc_list s) buffer (mc_size (alloc_list s ! i))
         fname line func,
       Log_dump_buffer (take (unat (mc_size (alloc_list s ! i) + 8)) (the (heap s buffer))),
       Log_Check_sum,
       Log_dump_buffer (ulong_bytes (mc_size (alloc_list s ! i) + CHECK_VAL)),
       Log_free i (number_alloc_list s) buffer (mc_size (alloc_list s ! i)) fname line func] \<and>
    heap s' = (heap s)(buffer := None) \<and>
    alloc_list s' = (alloc_list s)[i := (alloc_list s ! i)\<lparr>mc_type := OVERRUN\<rparr>] \<and>
    mc_type (alloc_list s' ! i) = OVERRUN \<and>
    number_alloc_list s' = number_alloc_list s \<and>
    n_used s' = n_used s - 1 \<and>
    mem_allocated s' = mem_allocated s - mc_size (alloc_list s ! i) \<and>
    free_list s' = (free_list s)
      [f_next s := \<lparr>mc_type = LAST_FREE, mc_line = line, mc_func = func, mc_file = fname,
                    mc_ptr = buffer, mc_size = of_nat i\<rparr>] \<and>
    f_next s' = (f_next s + 1) mod FREE_LIST_SIZE"
proof -
  from assms(1,3) have "i < length (alloc_list s)" by (simp add: wf_state_def)
  then show ?thesis
    by (simp add: keepalived_free_overrun [OF assms])
qed

theorem free_overrun_recorded_witness:
  "wf_state 4 sample_overrun \<and> (4096 :: addr) \<noteq> NULL \<and>
   0 < number_alloc_list sample_overrun \<and>
   mc_type (alloc_list sample_overrun ! 0) = ALLOCATED \<and>
   mc_ptr (alloc_list sample_overrun ! 0) = 4096 \<and>
   load_ulong (heap sample_overrun) 4096 (unat (mc_size (alloc_list sample_overrun ! 0))) =
     Some 0 \<and>
   0 \<noteq> mc_size (alloc_list sample_overrun ! 0) + CHECK_VAL \<and>
   (\<exists>s'. keepalived_free 4 sample_reply sample_overrun 4096 ''main.c'' ''main'' 9 = Inr s' \<and>
      mem_err_detect s' \<and> heap s' 4096 = None \<and>
      mc_type (alloc_list s' ! 0) = OVERRUN \<and> n_used s' = 0 \<and> mem_allocated s' = 0 \<and>
      free_list s' ! 0 =
        \<lparr>mc_type = LAST_FREE, mc_line = 9, mc_func = ''main'', mc_file = ''main.c'',
         mc_ptr = 4096, mc_size = 0\<rparr> \<and>
      f_next s' = 1)"
proof -
  note f = sample_overrun_facts
  have h3: "0 < number_alloc_list sample_overrun" by (simp add: f)
  have h4: "mc_type (alloc_list sample_overrun ! 0) = ALLOCATED"
    and h5: "mc_ptr (alloc_list sample_overrun ! 0) = 4096" by (simp_all add: f)
  have h6: "\<forall>j < 0. \<not> (mc_type (alloc_list sample_overrun ! j) = ALLOCATED \<and>
                       mc_ptr (alloc_list sample_overrun ! j) = 4096)" by simp
  have h7: "load_ulong (heap sample_overrun) 4096
      (unat (mc_size (alloc_list sample_overrun ! 0))) = Some 0" by (simp add: f)
  have h8: "0 \<noteq> mc_size (alloc_list sample_overrun ! 0) + CHECK_VAL"
    using check_val_2 by (simp add: f)
  have len: "length (free_list sample_overrun) = FREE_LIST_SIZE"
    using f(1) by (simp add: wf_state_def)
  from free_overrun_recorded [OF f(1) _ h3 h4 h5 h6 h7 h8, of sample_reply "''main.c''" "''main''" 9]
  show ?thesis
    using f(1) h3 h4 h5 h7 h8 len by (auto simp: f(2-8) FREE_LIST_SIZE_def)
qed

lemma sample_overrun_free:
  "\<exists>s'. keepalived_free 4 sample_reply sample_overrun 4096 ''main.c'' ''main'' 9 = Inr s' \<and>
      mc_type (alloc_list s' ! 0) = OVERRUN"
proof -
  note f = sample_overrun_facts
  have len: "0 < length (alloc_list sample_overrun)"
    using f(1) by (simp add: wf_state_def)
  have "keepalived_free 4 sample_reply sample_overrun 4096 ''main.c'' ''main'' 9 =
      Inr (sample_overrun\<lparr>alloc_list := (alloc_list sample_overrun)
            [0 := (alloc_list sample_overrun ! 0)\<lparr>mc_type := OVERRUN\<rparr>],
         mem_err_detect := True,
         mem_allocated := mem_allocated sample_overrun - mc_size (alloc_list sample_overrun ! 0),
         heap := (heap sample_overrun)(4096 := None),
         log_op := log_op sample_overrun @
           [Log_corrupt True 0 (number_alloc_list sample_overrun) 4096
              (mc_size (alloc_list sample_overrun ! 0)) ''main.c'' 9 ''main'',
            Log_dump_buffer (take (unat (mc_size (alloc_list sample_overrun ! 0) + 8))
              (the (heap sample_overrun 4096))),
            Log_Check_sum,
            Log_dump_buffer (ulong_bytes (mc_size (alloc_list sample_overrun ! 0) + CHECK_VAL)),
            Log_free 0 (number_alloc_list sample_overrun) 4096
              (mc_size (alloc_list sample_overrun ! 0)) ''main.c'' 9 ''main''],
         free_list := (free_list sample_overrun)
           [f_next sample_overrun := \<lparr>mc_type = LAST_FREE, mc_line = 9, mc_func = ''main'',
              mc_file = ''main.c'', mc_ptr = 4096, mc_size = of_nat 0\<rparr>],
         f_next := (f_next sample_overrun + 1) mod FREE_LIST_SIZE,
         n_used := n_used sample_overrun - 1\<rparr>)"
    by (rule keepalived_free_overrun [where trailer = 0])
       (use check_val_2 in \<open>simp_all add: f\<close>)
  with len show ?thesis by simp
qed

text \<open>
  The claim as stated fails on the sample state: its slot 0 holds the pointer 4096 as
  allocated, the trailer read back is 0 and not \<open>2 + CHECK_VAL\<close>, and after the release
  the slot is of type \<open>OVERRUN\<close>, so it is not marked free.
\<close>

theorem free_overrun_slot_not_freed:
  "mc_type (alloc_list sample_overrun ! 0) = ALLOCATED \<and>
   mc_ptr (alloc_list sample_overrun ! 0) = 4096 \<and>
   load_ulong (heap sample_overrun) 4096 (unat (mc_size (alloc_list sample_overrun ! 0))) =
     Some 0 \<and>
   0 \<noteq> mc_size (alloc_list sample_overrun ! 0) + CHECK_VAL \<and>
   \<not> (\<exists>s'. keepalived_free 4 sample_reply sample_overrun 4096 ''main.c'' ''main'' 9 = Inr s' \<and>
          mc_type (alloc_list s' ! 0) = FREE_SLOT)"
  using sample_overrun_free check_val_2 by (auto simp: sample_overrun_facts)

subsection \<open>Resizing the null pointer\<close>

lemma get_free_alloc_entry_full:
  "get_free_alloc_entry M s avoid = Inl e \<Longrightarrow> e = ASSERT_FAILED \<and> M \<le> number_alloc_list s + 1"
  by (auto simp: get_free_alloc_entry_def Let_def split: if_splits)

text \<open>
  C7.  \<^verbatim>\<open>keepalived_realloc(NULL, size, ...)\<close> with a size other than 0 stops the process
  only when the table cannot take two more records, when \<^verbatim>\<open>malloc\<close> fails, or when
  \<open>size + 8\<close> wraps around.  Otherwise it returns the address \<^verbatim>\<open>malloc\<close> gave, which is
  not null and is the base of a zeroed block of \<open>size\<close> bytes followed by the trailer;
  the table holds a \<open>REALLOC_NULL\<close> record of the call site in one slot and the
  \<open>ALLOCATED\<close> record of the new block in another, all other slots are as before, the
  error bit is set, and the counters \<^verbatim>\<open>n\<close> and \<^verbatim>\<open>num_mallocs\<close> have gone up by one.
\<close>

theorem realloc_NULL_allocates:
  assumes "wf_state M s" and "sz \<noteq> 0"
  shows "case keepalived_realloc M r s NULL sz fname func line of
     Inl e \<Rightarrow>
       (e = ASSERT_FAILED \<and> M \<le> number_alloc_list s + 2) \<or>
       (e = EXIT_FAILURE \<and> reply_ptr r = NULL) \<or>
       (e = UNDEFINED \<and> 2 ^ 64 \<le> unat sz + 8)
   | Inr (p, s') \<Rightarrow>
       p = reply_ptr r \<and> p \<noteq> NULL \<and> mem_err_detect s' \<and>
       (\<exists>i j. i < number_alloc_list s' \<and> j < number_alloc_list s' \<and> i \<noteq> j \<and>
          alloc_list s' = (alloc_list s)
            [i := \<lparr>mc_type = REALLOC_NULL, mc_line = line, mc_func = func, mc_file = fname,
                    mc_ptr = NULL, mc_size = 0\<rparr>,
             j := \<lparr>mc_type = ALLOCATED, mc_line = line, mc_func = func, mc_file = fname,
                    mc_ptr = p, mc_size = sz\<rparr>] \<and>
          alloc_list s' ! i =
            \<lparr>mc_type = REALLOC_NULL, mc_line = line, mc_func = func, mc_file = fname,
             mc_ptr = NULL, mc_size = 0\<rparr> \<and>
          alloc_list s' ! j =
            \<lparr>mc_type = ALLOCATED, mc_line = line, mc_func = func, mc_file = fname,
             mc_ptr = p, mc_size = sz\<rparr> \<and>
          log_op s' = log_op s @
            [Log_realloc_NULL sz fname line func,
             Log_zalloc j (number_alloc_list s') p sz fname line func]) \<and>
       heap s' = (heap s)(p \<mapsto> replicate (unat sz) 0 @ ulong_bytes (sz + CHECK_VAL)) \<and>
       n_used s' = n_used s + 1 \<and> num_mallocs s' = num_mallocs s + 1 \<and>
       number_alloc_list s' \<le> number_alloc_list s + 2"
proof -
  let ?rn = "\<lparr>mc_type = REALLOC_NULL, mc_line = line, mc_func = func, mc_file = fname,
              mc_ptr = NULL, mc_size = 0\<rparr>"
  have top: "keepalived_realloc M r s NULL sz fname func line =
      common_NULL M r s sz fname func line"
    using assms(2) by (simp add: keepalived_realloc_def keepalived_free_realloc_common_def)
  show ?thesis
  proof (cases rule: get_free_alloc_entry_cases [of M s "- 1"])
    case full
    with get_free_alloc_entry_full [OF full] show ?thesis
      by (simp add: top common_NULL_eq)
  next
    case (slot i)
    let ?n1 = "if i = number_alloc_list s then number_alloc_list s + 1 else number_alloc_list s"
    let ?s4 = "s\<lparr>number_alloc_list := ?n1, alloc_list := (alloc_list s)[i := ?rn],
                 log_op := log_op s @ [Log_realloc_NULL sz fname line func],
                 mem_err_detect := True\<rparr>"
    from get_free_alloc_entry_Inr(2,3) [OF slot(1)] assms(1)
    have i: "i < ?n1" "?n1 < M" "i < length (alloc_list s)"
      by (simp_all add: wf_state_def split: if_splits)
    have step: "keepalived_realloc M r s NULL sz fname func line =
        keepalived_malloc M r ?s4 sz fname func line"
      using assms(2) by (simp add: top common_NULL_eq slot(1))
    show ?thesis
    proof (cases rule: get_free_alloc_entry_cases [of M ?s4 "- 1"])
      case full
      from get_free_alloc_entry_full [OF full] have "M \<le> number_alloc_list s + 2"
        by (simp split: if_splits)
      with full show ?thesis
        by (simp add: step keepalived_malloc_eq)
    next
      case (slot j)
      let ?n2 = "if j = ?n1 then ?n1 + 1 else ?n1"
      from get_free_alloc_entry_Inr(2,3,6) [OF slot(1)] assms(1)
      have j: "j < ?n2" "?n2 < M" "j \<le> ?n1" "j < length (alloc_list s)"
        by (simp_all add: wf_state_def split: if_splits)
      have jl: "free_entry_loop ((alloc_list s)[i := ?rn]) ?n1 (- 1) 0 = j"
        using slot(2) by simp
      have ne: "i \<noteq> j"
      proof
        assume eq: "i = j"
        from i(1) have "free_entry_loop ((alloc_list s)[i := ?rn]) ?n1 (- 1) 0 < ?n1"
          unfolding jl eq [symmetric] .
        from free_entry_loop_found [OF this]
        have "mc_type ((alloc_list s)[i := ?rn] ! i) = FREE_SLOT"
          unfolding jl eq [symmetric] by blast
        with i(3) show False by simp
      qed
      let ?al = "\<lparr>mc_type = ALLOCATED, mc_line = line, mc_func = func, mc_file = fname,
                   mc_ptr = reply_ptr r, mc_size = sz\<rparr>"
      define n2 where "n2 = ?n2"
      define al' where "al' = (alloc_list s)[i := ?rn, j := ?al]"
      let ?S = "s\<lparr>number_alloc_list := n2,
                  alloc_list := al',
                  log_op := log_op s @ [Log_realloc_NULL sz fname line func,
                    Log_zalloc j n2 (reply_ptr r) sz fname line func],
                  mem_err_detect := True,
                  heap := (heap s)(reply_ptr r \<mapsto>
                    replicate (unat sz) 0 @ ulong_bytes (sz + CHECK_VAL)),
                  mem_allocated := mem_allocated s + sz,
                  max_mem_allocated := (if mem_allocated s + sz > max_mem_allocated s
                     then mem_allocated s + sz else max_mem_allocated s),
                  n_used := n_used s + 1, num_mallocs := num_mallocs s + 1\<rparr>"
      have res: "keepalived_realloc M r s NULL sz fname func line =
          (if reply_ptr r = NULL then Inl EXIT_FAILURE
           else if 2 ^ 64 \<le> unat sz + 8 then Inl UNDEFINED
           else Inr (reply_ptr r, ?S))"
        by (simp add: step keepalived_malloc_eq slot(1) n2_def al'_def)
      have facts: "i < n2" "j < n2" "al' ! i = ?rn" "al' ! j = ?al"
        "n2 \<le> number_alloc_list s + 2"
        using i j ne by (simp_all add: n2_def al'_def split: if_splits)
      show ?thesis
      proof (cases "reply_ptr r = NULL \<or> 2 ^ 64 \<le> unat sz + 8")
        case True
        then show ?thesis by (auto simp: res)
      next
        case False
        then have r: "keepalived_realloc M r s NULL sz fname func line = Inr (reply_ptr r, ?S)"
          by (simp add: res)
        from False have nn: "reply_ptr r \<noteq> NULL" by simp
        have ex: "\<exists>i. i < n2 \<and> j < n2 \<and> i \<noteq> j \<and>
          al' = (alloc_list s)
            [i := \<lparr>mc_type = REALLOC_NULL, mc_line = line, mc_func = func, mc_file = fname,
                    mc_ptr = NULL, mc_size = 0\<rparr>,
             j := \<lparr>mc_type = ALLOCATED, mc_line = line, mc_func = func, mc_file = fname,
                    mc_ptr = reply_ptr r, mc_size = sz\<rparr>] \<and>
          al' ! i = ?rn \<and> al' ! j = ?al \<and>
          log_op s @ [Log_realloc_NULL sz fname line func,
                    Log_zalloc j n2 (reply_ptr r) sz fname line func] = log_op s @
            [Log_realloc_NULL sz fname line func,
             Log_zalloc j n2 (reply_ptr r) sz fname line func]"
          (is "\<exists>i. ?Q i")
        proof (intro exI)
          from facts ne show "?Q i" by (simp add: al'_def)
        qed
        show ?thesis
          unfolding r using ex nn facts(5) by simp
      qed
    qed
  qed
qed

theorem realloc_NULL_allocates_witness:
  "wf_state 4 (initial_state 4) \<and> (16 :: size_t) \<noteq> 0 \<and>
   (\<exists>s'. keepalived_realloc 4 sample_reply (initial_state 4) NULL 16 ''main.c'' ''main'' 3 =
           Inr (8192, s') \<and>
      mem_err_detect s' \<and> n_used s' = 1 \<and> num_mallocs s' = 1 \<and>
      heap s' 8192 = Some (replicate 16 0 @ ulong_bytes (16 + CHECK_VAL)))"
proof -
  have h1: "wf_state 4 (initial_state 4)" by (rule initial_state_wf)
  have h2: "(16 :: size_t) \<noteq> 0" by simp
  have i: "number_alloc_list (initial_state 4) = 0" "n_used (initial_state 4) = 0"
    "num_mallocs (initial_state 4) = 0" "reply_ptr sample_reply = 8192"
    by (simp_all add: initial_state_def sample_reply_def)
  note t = realloc_NULL_allocates [OF h1 h2, where r = sample_reply and fname = "''main.c''"
      and func = "''main''" and line = 3]
  show ?thesis
  proof (cases "keepalived_realloc 4 sample_reply (initial_state 4) NULL 16 ''main.c'' ''main'' 3")
    case (Inl e)
    with t show ?thesis by (simp add: i)
  next
    case (Inr ps)
    with t h1 h2 show ?thesis by (cases ps) (auto simp: i)
  qed
qed

subsection \<open>The log is written, never read\<close>

lemma get_free_alloc_entry_log:
  "get_free_alloc_entry M (s\<lparr>log_op := l\<rparr>) avoid =
     map_sum id (\<lambda>(i, s'). (i, s'\<lparr>log_op := l\<rparr>)) (get_free_alloc_entry M s avoid)"
  by (simp add: get_free_alloc_entry_def Let_def)

lemma keepalived_malloc_log:
  "keepalived_malloc M r (s\<lparr>log_op := l\<rparr>) sz file func line =
     map_sum id (\<lambda>(p, s'). (p, relog l s s')) (keepalived_malloc M r s sz file func line)"
  by (cases rule: get_free_alloc_entry_cases [of M s "- 1"])
     (simp_all add: keepalived_malloc_eq get_free_alloc_entry_log relog_def)

lemma keepalived_malloc_extends:
  assumes "keepalived_malloc M r s sz file func line = Inr (p, s')"
  shows "\<exists>x. log_op s' = log_op s @ x"
  using assms
  by (cases rule: get_free_alloc_entry_cases [of M s "- 1"])
     (auto simp: keepalived_malloc_eq split: if_splits)

lemma common_NULL_log:
  "common_NULL M r (s\<lparr>log_op := l\<rparr>) sz file func line =
     map_sum id (\<lambda>(p, s'). (p, relog l s s')) (common_NULL M r s sz file func line)"
proof (cases rule: get_free_alloc_entry_cases [of M s "- 1"])
  case full
  then show ?thesis by (simp add: common_NULL_eq get_free_alloc_entry_log)
next
  case (slot i)
  show ?thesis
  proof (cases "sz = 0")
    case True
    with slot(1) show ?thesis
      by (simp add: common_NULL_eq get_free_alloc_entry_log relog_def)
  next
    case False
    let ?n1 = "if i = number_alloc_list s then number_alloc_list s + 1 else number_alloc_list s"
    let ?s4 = "s\<lparr>number_alloc_list := ?n1,
                 alloc_list := (alloc_list s)
                   [i := \<lparr>mc_type = REALLOC_NULL, mc_line = line, mc_func = func,
                           mc_file = file, mc_ptr = NULL, mc_size = 0\<rparr>],
                 log_op := log_op s @ [Log_realloc_NULL sz file line func],
                 mem_err_detect := True\<rparr>"
    let ?s4' = "s\<lparr>number_alloc_list := ?n1,
                 alloc_list := (alloc_list s)
                   [i := \<lparr>mc_type = REALLOC_NULL, mc_line = line, mc_func = func,
                           mc_file = file, mc_ptr = NULL, mc_size = 0\<rparr>],
                 log_op := l @ [Log_realloc_NULL sz file line func],
                 mem_err_detect := True\<rparr>"
    have eq: "?s4' = ?s4\<lparr>log_op := l @ [Log_realloc_NULL sz file line func]\<rparr>"
      by simp
    have "common_NULL M r (s\<lparr>log_op := l\<rparr>) sz file func line =
        keepalived_malloc M r ?s4' sz file func line"
      using False slot(1) by (simp add: common_NULL_eq get_free_alloc_entry_log)
    then have a: "common_NULL M r (s\<lparr>log_op := l\<rparr>) sz file func line =
        keepalived_malloc M r (?s4\<lparr>log_op := l @ [Log_realloc_NULL sz file line func]\<rparr>)
          sz file func line"
      unfolding eq .
    have b: "common_NULL M r s sz file func line = keepalived_malloc M r ?s4 sz file func line"
      using False slot(1) by (simp add: common_NULL_eq)
    show ?thesis
    proof (cases "keepalived_malloc M r ?s4 sz file func line")
      case (Inl e)
      then show ?thesis unfolding a b keepalived_malloc_log by simp
    next
      case (Inr ps)
      obtain p s' where ps: "ps = (p, s')" by (cases ps)
      from keepalived_malloc_extends [OF Inr [unfolded ps]]
      obtain x where "log_op s' = log_op s @ Log_realloc_NULL sz file line func # x"
        by auto
      with Inr ps show ?thesis
        unfolding a b keepalived_malloc_log by (simp add: relog_def)
    qed
  qed
qed

lemma common_not_found_log:
  "common_not_found M (s\<lparr>log_op := l\<rparr>) buffer sz file func line =
     map_sum id (\<lambda>(p, s'). (p, relog l s s')) (common_not_found M s buffer sz file func line)"
proof (cases rule: get_free_alloc_entry_cases [of M s "- 1"])
  case full
  then show ?thesis by (simp add: common_not_found_def get_free_alloc_entry_log)
next
  case (slot i)
  show ?thesis
    unfolding common_not_found_def get_free_alloc_entry_log slot(1)
    by (simp add: Let_def relog_def split: sum.splits option.splits)
qed

lemma common_found_free_log:
  "common_found M r (s\<lparr>log_op := l\<rparr>) i buffer 0 file func line =
     map_sum id (\<lambda>(p, s'). (p, relog l s s')) (common_found M r s i buffer 0 file func line)"
  by (simp add: common_found_def common_overrun_def common_free_def c_free_def Let_def
      relog_def split: option.splits)

lemma keepalived_free_log:
  "keepalived_free M r (s\<lparr>log_op := l\<rparr>) buffer file func line =
     map_sum id (relog l s) (keepalived_free M r s buffer file func line)"
proof -
  have "keepalived_free_realloc_common M r (s\<lparr>log_op := l\<rparr>) buffer 0 file func line =
     map_sum id (\<lambda>(p, s'). (p, relog l s s'))
       (keepalived_free_realloc_common M r s buffer 0 file func line)"
    by (simp add: keepalived_free_realloc_common_def common_NULL_log common_not_found_log
        common_found_free_log Let_def)
  then show ?thesis
    by (cases "keepalived_free_realloc_common M r s buffer 0 file func line")
       (auto simp: keepalived_free_def)
qed

subsection \<open>Resizing to size 0\<close>

lemma keepalived_free_matched:
  assumes wf: "wf_state M s" and nn: "buffer \<noteq> NULL"
    and known: "buffer \<in> mc_ptr ` set (slots_of (\<lambda>t. t = ALLOCATED) s)"
    and ret: "keepalived_free M r s buffer file func line = Inr s'"
  shows "n_used s' = n_used s - 1 \<and> number_alloc_list s' = number_alloc_list s \<and>
         f_next s' = (f_next s + 1) mod FREE_LIST_SIZE \<and> heap s' buffer = None"
proof -
  let ?i = "allocated_loop (alloc_list s) (number_alloc_list s) buffer 0"
  from known have "?i \<noteq> number_alloc_list s"
    using unknown_pointer [OF wf, of buffer] by simp
  moreover have "?i \<le> number_alloc_list s" by (simp add: allocated_loop_le)
  ultimately have lt: "?i < number_alloc_list s" by simp
  with wf have len: "?i < length (alloc_list s)" by (simp add: wf_state_def)
  from allocated_loop_found [OF lt] have ptr: "mc_ptr (alloc_list s ! ?i) = buffer" by simp
  have top: "keepalived_free_realloc_common M r s buffer 0 file func line =
      common_found M r s ?i buffer 0 file func line"
    using nn lt by (simp add: keepalived_free_realloc_common_def Let_def)
  show ?thesis
  proof (cases "load_ulong (heap s) buffer (unat (mc_size (alloc_list s ! ?i)))")
    case None
    with ret show ?thesis
      by (simp add: keepalived_free_def top common_found_def)
  next
    case (Some trailer)
    show ?thesis
    proof (cases "trailer = mc_size (alloc_list s ! ?i) + CHECK_VAL")
      case True
      with Some ret show ?thesis
        by (auto simp: keepalived_free_def top common_found_free_ok [OF len])
    next
      case False
      with ret show ?thesis
        by (auto simp: keepalived_free_def top common_found_free_overrun [OF len ptr Some])
    qed
  qed
qed

text \<open>
  C6.  \<^verbatim>\<open>keepalived_realloc(buffer, 0, ...)\<close> ends as \<^verbatim>\<open>keepalived_free(buffer, ...)\<close>
  from the same state ends: with the same fatal outcome, or with the state that
  \<^verbatim>\<open>keepalived_free\<close> leaves (table, ring, counters, error bit and heap), the log alone
  carrying the extra line \<open>converted to free\<close> before the lines of the release; and it
  returns \<open>NULL\<close>.  When the pointer is held by an allocated slot and the call returns,
  \<^verbatim>\<open>n\<close> has gone down by one and the table has not grown.
\<close>

theorem realloc_zero_is_free:
  assumes "wf_state M s"
  shows "keepalived_realloc M r s buffer 0 fname func line =
     map_sum id
       (\<lambda>s'. (NULL, s'\<lparr>log_op := log_op s @ Log_converted_to_free buffer
                                 # drop (length (log_op s)) (log_op s')\<rparr>))
       (keepalived_free M r s buffer fname func line) \<and>
     (case keepalived_realloc M r s buffer 0 fname func line of
        Inl e \<Rightarrow> keepalived_free M r s buffer fname func line = Inl e
      | Inr (p, s') \<Rightarrow>
          p = NULL \<and>
          (buffer \<noteq> NULL \<and> buffer \<in> mc_ptr ` set (slots_of (\<lambda>t. t = ALLOCATED) s) \<longrightarrow>
             n_used s' = n_used s - 1 \<and> number_alloc_list s' = number_alloc_list s))"
proof -
  have eq: "keepalived_realloc M r s buffer 0 fname func line =
     map_sum id
       (\<lambda>s'. (NULL, s'\<lparr>log_op := log_op s @ Log_converted_to_free buffer
                                 # drop (length (log_op s)) (log_op s')\<rparr>))
       (keepalived_free M r s buffer fname func line)"
    by (cases "keepalived_free M r s buffer fname func line")
       (simp_all add: keepalived_realloc_def keepalived_free_log relog_def)
  show ?thesis
  proof (cases "keepalived_free M r s buffer fname func line")
    case (Inl e)
    with eq show ?thesis by simp
  next
    case (Inr s')
    from keepalived_free_matched [OF assms _ _ Inr] eq Inr show ?thesis
      by auto
  qed
qed

lemma sample_live_facts:
  "wf_state 4 sample_live"
  "number_alloc_list sample_live = 1"
  "alloc_list sample_live ! 0 =
     \<lparr>mc_type = ALLOCATED, mc_line = 7, mc_func = ''main'', mc_file = ''main.c'',
      mc_ptr = 4096, mc_size = 2\<rparr>"
  "load_ulong (heap sample_live) 4096 2 = Some (2 + CHECK_VAL)"
  "n_used sample_live = 1" "mem_allocated sample_live = 2"
  "f_next sample_live = 0"
  by (simp_all add: sample_live_def initial_state_def wf_state_def
      FREE_LIST_SIZE_def load_ulong_def ulong_bytes_length bytes_ulong_bytes)

lemma sample_live_known: "4096 \<in> mc_ptr ` set (slots_of (\<lambda>t. t = ALLOCATED) sample_live)"
  by (simp add: slots_of_def sample_live_def initial_state_def)

lemma sample_live_free:
  "\<exists>s'. keepalived_free 4 sample_reply sample_live 4096 ''main.c'' ''main'' 9 = Inr s'"
proof -
  note f = sample_live_facts
  have loop: "allocated_loop (alloc_list sample_live) (number_alloc_list sample_live) 4096 0 = 0"
    by (rule allocated_loop_first) (simp_all add: f)
  have len: "0 < length (alloc_list sample_live)"
    using f(1) by (simp add: wf_state_def)
  have "load_ulong (heap sample_live) 4096 (unat (mc_size (alloc_list sample_live ! 0))) =
      Some (mc_size (alloc_list sample_live ! 0) + CHECK_VAL)"
    by (simp add: f)
  from common_found_free_ok [OF len this, of 4 sample_reply "''main.c''" "''main''" 9] loop
  show ?thesis
    by (simp add: keepalived_free_def keepalived_free_realloc_common_def f(2))
qed

theorem realloc_zero_is_free_witness:
  "wf_state 4 sample_live \<and>
   (\<exists>s'. keepalived_free 4 sample_reply sample_live 4096 ''main.c'' ''main'' 9 = Inr s' \<and>
      keepalived_realloc 4 sample_reply sample_live 4096 0 ''main.c'' ''main'' 9 =
        Inr (NULL, s'\<lparr>log_op := log_op sample_live @ Log_converted_to_free 4096
                               # drop (length (log_op sample_live)) (log_op s')\<rparr>) \<and>
      n_used s' = 0 \<and> number_alloc_list s' = 1)"
proof -
  note f = sample_live_facts
  from sample_live_free obtain s' where
    fr: "keepalived_free 4 sample_reply sample_live 4096 ''main.c'' ''main'' 9 = Inr s'" ..
  from realloc_zero_is_free [OF f(1), of sample_reply 4096 "''main.c''" "''main''" 9]
  show ?thesis
    using f(1) sample_live_known by (auto simp: fr f(2,5))
qed

subsection \<open>Counting slots\<close>

lemma filter_update_count:
  "i < length xs \<Longrightarrow>
   length (filter Q (xs[i := e])) + (if Q (xs ! i) then 1 else 0) =
   length (filter Q xs) + (if Q e then 1 else 0)"
proof (induction xs arbitrary: i)
  case Nil
  then show ?case by simp
next
  case (Cons x xs)
  then show ?case by (cases i) auto
qed

lemma slots_of_update:
  assumes "i < number_alloc_list s" and "number_alloc_list s \<le> length (alloc_list s)"
  shows "length (slots_of P (s\<lparr>alloc_list := (alloc_list s)[i := e]\<rparr>))
           + (if P (mc_type (alloc_list s ! i)) then 1 else 0) =
         length (slots_of P s) + (if P (mc_type e) then 1 else 0)"
  using assms
    filter_update_count [of i "take (number_alloc_list s) (alloc_list s)" "\<lambda>e. P (mc_type e)" e]
  by (simp add: slots_of_def take_update_swap)

lemma slots_of_extend:
  assumes "number_alloc_list s < length (alloc_list s)"
  shows "length (slots_of P (s\<lparr>number_alloc_list := number_alloc_list s + 1,
                               alloc_list := (alloc_list s)[number_alloc_list s := e]\<rparr>)) =
         length (slots_of P s) + (if P (mc_type e) then 1 else 0)"
  using assms by (simp add: slots_of_def take_Suc_conv_app_nth)

lemma slots_of_cong:
  "alloc_list s' = alloc_list s \<Longrightarrow> number_alloc_list s' = number_alloc_list s \<Longrightarrow>
   slots_of P s' = slots_of P s"
  by (simp add: slots_of_def)

text \<open>A record written to the slot that \<open>get_free_alloc_entry\<close> gives.\<close>

lemma record_at_free_entry:
  assumes g: "get_free_alloc_entry M s (- 1) = Inr (i, s1)"
    and wf: "wf_state M s"
    and s': "alloc_list s' = (alloc_list s)[i := e]"
      "number_alloc_list s' = number_alloc_list s1"
  shows "i < number_alloc_list s'" and "number_alloc_list s' < M"
    and "length (alloc_list s') = M"
    and "\<not> P FREE_SLOT \<Longrightarrow>
         length (slots_of P s') = length (slots_of P s) + (if P (mc_type e) then 1 else 0)"
    and "persists s s'"
    and "alloc_list s' ! i = e"
proof -
  note r = get_free_alloc_entry_Inr [OF g]
  from wf have len: "length (alloc_list s) = M" and le: "number_alloc_list s \<le> M"
    by (simp_all add: wf_state_def)
  from r(2,3) s' show i: "i < number_alloc_list s'" and lt: "number_alloc_list s' < M"
    by simp_all
  from len s' show "length (alloc_list s') = M" by simp
  from i lt len s' show "alloc_list s' ! i = e" by simp
  have free: "mc_type (alloc_list s ! i) = FREE_SLOT" if "i < number_alloc_list s"
    using free_entry_loop_found [of "alloc_list s" "number_alloc_list s" "- 1" 0] that r(4)
    by simp
  show "length (slots_of P s') = length (slots_of P s) + (if P (mc_type e) then 1 else 0)"
    if nf: "\<not> P FREE_SLOT"
  proof (cases "i < number_alloc_list s")
    case True
    with r(5) s' have same: "number_alloc_list s' = number_alloc_list s" by simp
    have "slots_of P s' = slots_of P (s\<lparr>alloc_list := (alloc_list s)[i := e]\<rparr>)"
      using s' same by (simp add: slots_of_def)
    with slots_of_update [OF True, of P e] le len free [OF True] nf show ?thesis by simp
  next
    case False
    with r(6) have eq: "i = number_alloc_list s" by simp
    with r(5) s' have n': "number_alloc_list s' = number_alloc_list s + 1" by simp
    from eq i lt n' len have "number_alloc_list s < length (alloc_list s)" by simp
    from slots_of_extend [OF this, of P e] s' n' eq show ?thesis
      by (simp add: slots_of_def)
  qed
  show "persists s s'"
    unfolding persists_def
  proof (intro conjI allI impI)
    from r(5) s' show "number_alloc_list s \<le> number_alloc_list s'" by (simp split: if_splits)
  next
    fix k
    assume k: "k < number_alloc_list s" and err: "is_error (mc_type (alloc_list s ! k))"
    have "k \<noteq> i"
    proof
      assume "k = i"
      with k free err show False by simp
    qed
    with s' show "alloc_list s' ! k = alloc_list s ! k" by simp
  qed
qed

text \<open>An allocated slot rewritten in place.\<close>

lemma rewrite_allocated:
  assumes i: "i < number_alloc_list s" and wf: "wf_state M s"
    and a: "mc_type (alloc_list s ! i) = ALLOCATED"
    and s': "alloc_list s' = (alloc_list s)[i := e]"
      "number_alloc_list s' = number_alloc_list s"
  shows "length (slots_of P s') + (if P ALLOCATED then 1 else 0) =
         length (slots_of P s) + (if P (mc_type e) then 1 else 0)"
    and "persists s s'"
proof -
  from wf have le: "number_alloc_list s \<le> length (alloc_list s)" by (simp add: wf_state_def)
  have "slots_of P s' = slots_of P (s\<lparr>alloc_list := (alloc_list s)[i := e]\<rparr>)"
    using s' by (simp add: slots_of_def)
  with slots_of_update [OF i le, of P e] a
  show "length (slots_of P s') + (if P ALLOCATED then 1 else 0) =
         length (slots_of P s) + (if P (mc_type e) then 1 else 0)" by simp
  show "persists s s'"
    unfolding persists_def
  proof (intro conjI allI impI)
    from s' show "number_alloc_list s \<le> number_alloc_list s'" by simp
  next
    fix k
    assume "k < number_alloc_list s" and err: "is_error (mc_type (alloc_list s ! k))"
    with a have "k \<noteq> i" by auto
    with s' show "alloc_list s' ! k = alloc_list s ! k" by simp
  qed
qed

lemma persists_refl: "persists s s"
  by (simp add: persists_def)

lemma persists_trans:
  assumes "persists s s'" and "persists s' s''"
  shows "persists s s''"
  using assms unfolding persists_def
  by (metis (no_types, lifting) le_trans less_le_trans)

subsection \<open>What each block does to the table\<close>

lemma step_ok_refl: "wf_state M s \<Longrightarrow> step_ok M s s"
  by (simp add: step_ok_def persists_refl)

lemma step_ok_trans: "step_ok M s s' \<Longrightarrow> step_ok M s' s'' \<Longrightarrow> step_ok M s s''"
  unfolding step_ok_def using persists_trans by auto

lemma step_ok_same_table:
  assumes "wf_state M s" and "alloc_list s' = alloc_list s"
    and "number_alloc_list s' = number_alloc_list s" and "n_used s' = n_used s"
    and "free_list s' = free_list s" and "f_next s' = f_next s"
  shows "step_ok M s s'"
  using assms by (simp add: step_ok_def wf_state_def persists_def slots_of_def)

lemma step_ok_record:
  assumes g: "get_free_alloc_entry M s (- 1) = Inr (i, s1)"
    and wf: "wf_state M s"
    and s': "alloc_list s' = (alloc_list s)[i := e]"
      "number_alloc_list s' = number_alloc_list s1"
      "free_list s' = free_list s" "f_next s' = f_next s"
      "n_used s' = n_used s + (if mc_type e = ALLOCATED then 1 else 0)"
  shows "step_ok M s s'"
proof -
  note r = record_at_free_entry [OF g wf s'(1,2)]
  from r(4) [of "\<lambda>t. t = ALLOCATED"]
  have "length (slots_of (\<lambda>t. t = ALLOCATED) s') =
      length (slots_of (\<lambda>t. t = ALLOCATED) s) + (if mc_type e = ALLOCATED then 1 else 0)"
    by simp
  with r(2,3,5) wf s'(3-5) show ?thesis
    by (simp add: step_ok_def wf_state_def)
qed

lemma filter_update_irrelevant:
  "\<not> Q e \<Longrightarrow> (i < length xs \<Longrightarrow> \<not> Q (xs ! i)) \<Longrightarrow> filter Q (xs[i := e]) = filter Q xs"
proof (induction xs arbitrary: i)
  case Nil
  then show ?case by simp
next
  case (Cons x xs)
  then show ?case by (cases i) auto
qed

lemma keepalived_malloc_step:
  assumes wf: "wf_state M s"
    and ret: "keepalived_malloc M r s sz file func line = Inr (p, s')"
  shows "step_ok M s s'"
    and "slots_of is_error s' = slots_of is_error s"
    and "mem_err_detect s' = mem_err_detect s"
proof -
  from ret obtain i s1 where g: "get_free_alloc_entry M s (- 1) = Inr (i, s1)"
    by (cases "get_free_alloc_entry M s (- 1)")
       (auto simp: keepalived_malloc_eq split: if_splits)
  let ?e = "\<lparr>mc_type = ALLOCATED, mc_line = line, mc_func = func, mc_file = file,
             mc_ptr = reply_ptr r, mc_size = sz\<rparr>"
  from ret g have f: "alloc_list s' = (alloc_list s)[i := ?e]"
      "number_alloc_list s' = number_alloc_list s1"
      "free_list s' = free_list s" "f_next s' = f_next s"
      "n_used s' = n_used s + 1" "mem_err_detect s' = mem_err_detect s"
    by (auto simp: keepalived_malloc_eq split: if_splits)
  from step_ok_record [OF g wf f(1-4)] f(5) show "step_ok M s s'" by simp
  show "mem_err_detect s' = mem_err_detect s" by (rule f(6))
  note r = get_free_alloc_entry_Inr [OF g]
  from wf have len: "length (alloc_list s) = M" "number_alloc_list s \<le> M"
    by (simp_all add: wf_state_def)
  show "slots_of is_error s' = slots_of is_error s"
  proof (cases "i < number_alloc_list s")
    case True
    with free_entry_loop_found [of "alloc_list s" "number_alloc_list s" "- 1" 0] r(4)
    have fr: "mc_type (alloc_list s ! i) = FREE_SLOT" by simp
    from True r(5) f(2) have same: "number_alloc_list s' = number_alloc_list s" by simp
    have "filter (\<lambda>e. is_error (mc_type e)) ((take (number_alloc_list s) (alloc_list s))[i := ?e])
        = filter (\<lambda>e. is_error (mc_type e)) (take (number_alloc_list s) (alloc_list s))"
      (is "filter ?Q (?xs[i := ?e]) = filter ?Q ?xs")
      using True len fr by (intro filter_update_irrelevant) simp_all
    then show ?thesis
      using f(1) same by (simp add: slots_of_def take_update_swap)
  next
    case False
    with r(6) have eq: "i = number_alloc_list s" by simp
    with r(5) f(2) have n': "number_alloc_list s' = Suc (number_alloc_list s)" by simp
    from eq r(2,3) f(2) n' len have "number_alloc_list s < length (alloc_list s)" by simp
    then show ?thesis
      using f(1) n' eq by (simp add: slots_of_def take_Suc_conv_app_nth)
  qed
qed

lemma common_NULL_step:
  assumes wf: "wf_state M s"
    and ret: "common_NULL M r s sz file func line = Inr (p, s')"
  shows "step_ok M s s'"
proof -
  from ret obtain i s1 where g: "get_free_alloc_entry M s (- 1) = Inr (i, s1)"
    by (cases "get_free_alloc_entry M s (- 1)") (auto simp: common_NULL_eq)
  show ?thesis
  proof (cases "sz = 0")
    case True
    with ret g have f: "alloc_list s' = (alloc_list s)
          [i := \<lparr>mc_type = FREE_NULL, mc_line = line, mc_func = func,
                  mc_file = file, mc_ptr = NULL, mc_size = 0\<rparr>]"
      "number_alloc_list s' = number_alloc_list s1"
      "free_list s' = free_list s" "f_next s' = f_next s" "n_used s' = n_used s"
      by (auto simp: common_NULL_eq)
    from step_ok_record [OF g wf f(1-4)] f(5) show ?thesis by simp
  next
    case False
    let ?s4 = "s\<lparr>number_alloc_list := number_alloc_list s1,
                 alloc_list := (alloc_list s)
                   [i := \<lparr>mc_type = REALLOC_NULL, mc_line = line, mc_func = func,
                           mc_file = file, mc_ptr = NULL, mc_size = 0\<rparr>],
                 log_op := log_op s @ [Log_realloc_NULL sz file line func],
                 mem_err_detect := True\<rparr>"
    from ret g False have m: "keepalived_malloc M r ?s4 sz file func line = Inr (p, s')"
      by (simp add: common_NULL_eq)
    have a: "step_ok M s ?s4"
      by (rule step_ok_record [OF g wf, where e = "\<lparr>mc_type = REALLOC_NULL, mc_line = line,
            mc_func = func, mc_file = file, mc_ptr = NULL, mc_size = 0\<rparr>"]) simp_all
    then have "wf_state M ?s4" by (simp add: step_ok_def)
    from keepalived_malloc_step(1) [OF this m] a show ?thesis
      by (rule step_ok_trans [rotated])
  qed
qed

lemma common_not_found_step:
  assumes wf: "wf_state M s"
    and ret: "common_not_found M s buffer sz file func line = Inr (p, s')"
  shows "step_ok M s s'"
proof -
  from wf have fl: "length (free_list s) = FREE_LIST_SIZE" "f_next s < FREE_LIST_SIZE"
    by (simp_all add: wf_state_def)
  note eq = common_not_found_eq [OF fl]
  from ret obtain i s1 where g: "get_free_alloc_entry M s (- 1) = Inr (i, s1)"
    by (cases "get_free_alloc_entry M s (- 1)") (auto simp: eq)
  from ret g have f: "alloc_list s' = (alloc_list s)
          [i := \<lparr>mc_type = (if sz = 0 then FREE_NOT_ALLOC else REALLOC_NOT_ALLOC),
                  mc_line = line, mc_func = func, mc_file = file,
                  mc_ptr = buffer, mc_size = sz\<rparr>]"
      "number_alloc_list s' = number_alloc_list s1"
      "free_list s' = free_list s" "f_next s' = f_next s" "n_used s' = n_used s"
    by (auto simp: eq)
  from step_ok_record [OF g wf f(1-4)] f(5) show ?thesis by simp
qed

lemma realloc_block_length: "length (realloc_block junk old len) = len"
  by (simp add: realloc_block_def)

lemma common_realloc_Inr:
  assumes "common_realloc r s i buffer sz file func line = Inr (p, s')"
  shows "alloc_list s' = (alloc_list s)
           [i := (alloc_list s ! i)\<lparr>mc_ptr := p, mc_size := sz, mc_file := file,
                                    mc_line := line, mc_func := func\<rparr>]"
    and "number_alloc_list s' = number_alloc_list s" and "n_used s' = n_used s"
    and "free_list s' = free_list s" and "f_next s' = f_next s"
    and "mem_err_detect s' = mem_err_detect s"
    and "load_ulong (heap s') p (unat sz) = Some (sz + CHECK_VAL)"
    and "p \<noteq> NULL"
    and "num_reallocs s' = num_reallocs s + 1"
proof -
  from assms obtain buffer' h h' where
    re: "c_realloc r (heap s) buffer (unat (sz + 8)) = Some (buffer', h)"
    and st: "store_ulong h buffer' (unat sz) (sz + CHECK_VAL) = Some h'"
    by (auto simp: common_realloc_def Let_def split: option.splits if_splits)
  from st have nn: "buffer' \<noteq> NULL" by (auto simp: store_ulong_def split: if_splits)
  from assms re st have p: "p = buffer'" and h: "heap s' = h'"
    by (auto simp: common_realloc_def Let_def split: if_splits)
  from load_store_ulong [OF st] p h show "load_ulong (heap s') p (unat sz) = Some (sz + CHECK_VAL)"
    by simp
  from nn p show "p \<noteq> NULL" by simp
  from assms re st show "alloc_list s' = (alloc_list s)
           [i := (alloc_list s ! i)\<lparr>mc_ptr := p, mc_size := sz, mc_file := file,
                                    mc_line := line, mc_func := func\<rparr>]"
    and "number_alloc_list s' = number_alloc_list s" and "n_used s' = n_used s"
    and "free_list s' = free_list s" and "f_next s' = f_next s"
    and "mem_err_detect s' = mem_err_detect s"
    and "num_reallocs s' = num_reallocs s + 1"
    by (auto simp: common_realloc_def Let_def split: if_splits)
qed

lemma common_overrun_resize_Inr:
  assumes nz: "sz \<noteq> 0"
    and ret: "common_overrun M s i buffer sz file func line check = Inr s2"
  shows "\<exists>j s1. get_free_alloc_entry M s (- 1) = Inr (j, s1) \<and>
           alloc_list s2 = (alloc_list s)[j := (alloc_list s ! i)\<lparr>mc_type := OVERRUN\<rparr>] \<and>
           number_alloc_list s2 = number_alloc_list s1"
    and "free_list s2 = free_list s" and "f_next s2 = f_next s" and "n_used s2 = n_used s"
    and "mem_err_detect s2" and "heap s2 = heap s"
proof -
  from ret nz obtain j s1 where g: "get_free_alloc_entry M s (- 1) = Inr (j, s1)"
    by (cases "get_free_alloc_entry M s (- 1)") (auto simp: common_overrun_def)
  note r = get_free_alloc_entry_Inr(1) [OF g]
  have s1: "alloc_list s1 = alloc_list s" "heap s1 = heap s" "free_list s1 = free_list s"
    "f_next s1 = f_next s" "n_used s1 = n_used s"
    by (subst r, simp)+
  from ret nz g s1 show "\<exists>j s1. get_free_alloc_entry M s (- 1) = Inr (j, s1) \<and>
           alloc_list s2 = (alloc_list s)[j := (alloc_list s ! i)\<lparr>mc_type := OVERRUN\<rparr>] \<and>
           number_alloc_list s2 = number_alloc_list s1"
    by (auto simp: common_overrun_def Let_def split: option.splits)
  from ret nz g s1 show "free_list s2 = free_list s" and "f_next s2 = f_next s"
    and "n_used s2 = n_used s" and "mem_err_detect s2" and "heap s2 = heap s"
    by (auto simp: common_overrun_def Let_def split: option.splits)
qed

lemma record_keeps_used:
  assumes g: "get_free_alloc_entry M s (- 1) = Inr (j, s1)"
    and k: "k < number_alloc_list s" "mc_type (alloc_list s ! k) \<noteq> FREE_SLOT"
  shows "k \<noteq> j" and "k < number_alloc_list s1"
proof -
  note r = get_free_alloc_entry_Inr [OF g]
  show "k \<noteq> j"
  proof
    assume "k = j"
    with k(1) r(4) have "free_entry_loop (alloc_list s) (number_alloc_list s) (- 1) 0
        < number_alloc_list s" by simp
    from free_entry_loop_found [OF this] r(4) \<open>k = j\<close> k(2) show False by simp
  qed
  from r(5) k(1) show "k < number_alloc_list s1" by (simp split: if_splits)
qed

lemma step_ok_rewrite:
  assumes i: "i < number_alloc_list s" and wf: "wf_state M s"
    and a: "mc_type (alloc_list s ! i) = ALLOCATED"
    and s': "alloc_list s' = (alloc_list s)[i := e]"
      "number_alloc_list s' = number_alloc_list s"
      "length (free_list s') = FREE_LIST_SIZE" "f_next s' < FREE_LIST_SIZE"
      "n_used s' = n_used s - (if mc_type e = ALLOCATED then 0 else 1)"
  shows "step_ok M s s'"
proof -
  note r = rewrite_allocated [OF i wf a s'(1,2)]
  from r(1) [of "\<lambda>t. t = ALLOCATED"] s'(5)
  have "n_used s' - int (length (slots_of (\<lambda>t. t = ALLOCATED) s')) =
     n_used s - int (length (slots_of (\<lambda>t. t = ALLOCATED) s))"
    by (simp split: if_splits)
  with r(2) wf s'(1-4) show ?thesis
    by (simp add: step_ok_def wf_state_def)
qed

lemma ring_next_less: "(f + 1) mod FREE_LIST_SIZE < FREE_LIST_SIZE"
  by (simp add: FREE_LIST_SIZE_def)

lemma common_found_step:
  assumes wf: "wf_state M s" and i: "i < number_alloc_list s"
    and a: "mc_type (alloc_list s ! i) = ALLOCATED"
    and ptr: "mc_ptr (alloc_list s ! i) = buffer"
    and ret: "common_found M r s i buffer sz file func line = Inr (p, s')"
  shows "step_ok M s s'"
    and "length (slots_of (\<lambda>t. t = OVERRUN) s') =
         length (slots_of (\<lambda>t. t = OVERRUN) s) +
         (if load_ulong (heap s) buffer (unat (mc_size (alloc_list s ! i))) =
             Some (mc_size (alloc_list s ! i) + CHECK_VAL) then 0 else 1)"
    and "mem_err_detect s' \<longleftrightarrow>
         mem_err_detect s \<or>
         load_ulong (heap s) buffer (unat (mc_size (alloc_list s ! i))) \<noteq>
           Some (mc_size (alloc_list s ! i) + CHECK_VAL)"
    and "sz \<noteq> 0 \<Longrightarrow> p \<noteq> NULL \<and> load_ulong (heap s') p (unat sz) = Some (sz + CHECK_VAL)"
    and "sz = 0 \<Longrightarrow> p = NULL \<and> n_used s' = n_used s - 1"
proof -
  let ?z = "mc_size (alloc_list s ! i)"
  let ?OV = "\<lambda>t. t = OVERRUN"
  from wf i have len: "i < length (alloc_list s)" by (simp add: wf_state_def)
  from wf have fl: "length (free_list s) = FREE_LIST_SIZE" by (simp add: wf_state_def)
  from ret obtain trailer where load: "load_ulong (heap s) buffer (unat ?z) = Some trailer"
    by (cases "load_ulong (heap s) buffer (unat ?z)") (auto simp: common_found_def)
  have all: "step_ok M s s' \<and>
    length (slots_of ?OV s') = length (slots_of ?OV s) +
      (if trailer = ?z + CHECK_VAL then 0 else 1) \<and>
    (mem_err_detect s' \<longleftrightarrow> mem_err_detect s \<or> trailer \<noteq> ?z + CHECK_VAL) \<and>
    (sz \<noteq> 0 \<longrightarrow> p \<noteq> NULL \<and> load_ulong (heap s') p (unat sz) = Some (sz + CHECK_VAL)) \<and>
    (sz = 0 \<longrightarrow> p = NULL \<and> n_used s' = n_used s - 1)"
  proof (cases "sz = 0")
    case zero: True
    show ?thesis
    proof (cases "trailer = ?z + CHECK_VAL")
      case True
      from ret zero common_found_free_ok [OF len load [unfolded True], of M r "file" func line]
      have f: "alloc_list s' = (alloc_list s)[i := (alloc_list s ! i)\<lparr>mc_type := FREE_SLOT\<rparr>]"
        "number_alloc_list s' = number_alloc_list s"
        "length (free_list s') = FREE_LIST_SIZE" "f_next s' < FREE_LIST_SIZE"
        "n_used s' = n_used s - 1" "mem_err_detect s' = mem_err_detect s" "p = NULL"
        using fl ring_next_less [of "f_next s"] by auto
      from step_ok_rewrite [OF i wf a f(1-4)] f(5) have "step_ok M s s'" by simp
      moreover from rewrite_allocated(1) [OF i wf a f(1,2), of ?OV]
      have "length (slots_of ?OV s') = length (slots_of ?OV s)" by simp
      ultimately show ?thesis using True zero f(5,6,7) by simp
    next
      case False
      from ret zero common_found_free_overrun [OF len ptr load False, of M r "file" func line]
      have f: "alloc_list s' = (alloc_list s)[i := (alloc_list s ! i)\<lparr>mc_type := OVERRUN\<rparr>]"
        "number_alloc_list s' = number_alloc_list s"
        "length (free_list s') = FREE_LIST_SIZE" "f_next s' < FREE_LIST_SIZE"
        "n_used s' = n_used s - 1" "mem_err_detect s'" "p = NULL"
        using fl ring_next_less [of "f_next s"] by auto
      from step_ok_rewrite [OF i wf a f(1-4)] f(5) have "step_ok M s s'" by simp
      moreover from rewrite_allocated(1) [OF i wf a f(1,2), of ?OV]
      have "length (slots_of ?OV s') = length (slots_of ?OV s) + 1" by simp
      ultimately show ?thesis using False zero f(5,6,7) by simp
    qed
  next
    case nz: False
    show ?thesis
    proof (cases "trailer = ?z + CHECK_VAL")
      case True
      let ?s2 = "s\<lparr>mem_allocated := mem_allocated s - ?z\<rparr>"
      from ret nz load True
      have re: "common_realloc r ?s2 i buffer sz file func line = Inr (p, s')"
        by (simp add: common_found_def)
      note c = common_realloc_Inr [OF re]
      from c(1,2,4,5) wf have f: "alloc_list s' = (alloc_list s)
           [i := (alloc_list s ! i)\<lparr>mc_ptr := p, mc_size := sz, mc_file := file,
                                    mc_line := line, mc_func := func\<rparr>]"
        "number_alloc_list s' = number_alloc_list s"
        "length (free_list s') = FREE_LIST_SIZE" "f_next s' < FREE_LIST_SIZE"
        by (simp_all add: wf_state_def)
      from step_ok_rewrite [OF i wf a f] c(3) a have "step_ok M s s'" by simp
      moreover from rewrite_allocated(1) [OF i wf a f(1,2), of ?OV] a
      have "length (slots_of ?OV s') = length (slots_of ?OV s)" by simp
      ultimately show ?thesis using True nz c(6,7,8) by simp
    next
      case False
      from ret nz load False obtain s2 where
        ov: "common_overrun M s i buffer sz file func line (?z + CHECK_VAL) = Inr s2"
        by (cases "common_overrun M s i buffer sz file func line (?z + CHECK_VAL)")
           (auto simp: common_found_def Let_def)
      let ?s3 = "s2\<lparr>mem_allocated := mem_allocated s2 - mc_size (alloc_list s2 ! i)\<rparr>"
      from ret nz load False ov
      have re: "common_realloc r ?s3 i buffer sz file func line = Inr (p, s')"
        by (simp add: common_found_def Let_def)
      note o = common_overrun_resize_Inr [OF nz ov]
      from o(1) obtain j s1 where g: "get_free_alloc_entry M s (- 1) = Inr (j, s1)"
        and al2: "alloc_list s2 = (alloc_list s)[j := (alloc_list s ! i)\<lparr>mc_type := OVERRUN\<rparr>]"
        and n2: "number_alloc_list s2 = number_alloc_list s1"
        by blast
      from a have nf: "mc_type (alloc_list s ! i) \<noteq> FREE_SLOT" by simp
      note k = record_keeps_used [OF g i nf]
      have st2: "step_ok M s s2"
        using step_ok_record [OF g wf al2 n2 o(2,3)] o(4) by simp
      then have wf2: "wf_state M s2" by (simp add: step_ok_def)
      from record_at_free_entry(4) [OF g wf al2 n2, of ?OV]
      have ov2: "length (slots_of ?OV s2) = length (slots_of ?OV s) + 1" by simp
      from k al2 n2 have i2: "i < number_alloc_list s2"
        and same: "alloc_list s2 ! i = alloc_list s ! i" by simp_all
      with a have a2: "mc_type (alloc_list s2 ! i) = ALLOCATED" by simp
      note c = common_realloc_Inr [OF re]
      from c(1,2,4,5) wf2 have f: "alloc_list s' = (alloc_list s2)
           [i := (alloc_list s2 ! i)\<lparr>mc_ptr := p, mc_size := sz, mc_file := file,
                                    mc_line := line, mc_func := func\<rparr>]"
        "number_alloc_list s' = number_alloc_list s2"
        "length (free_list s') = FREE_LIST_SIZE" "f_next s' < FREE_LIST_SIZE"
        by (simp_all add: wf_state_def)
      from step_ok_rewrite [OF i2 wf2 a2 f] c(3) a2 have "step_ok M s2 s'" by simp
      with st2 have "step_ok M s s'" by (rule step_ok_trans)
      moreover from rewrite_allocated(1) [OF i2 wf2 a2 f(1,2), of ?OV] a2 ov2
      have "length (slots_of ?OV s') = length (slots_of ?OV s) + 1" by simp
      ultimately show ?thesis using False nz c(6,7,8) o(5) by simp
    qed
  qed
  from all show "step_ok M s s'" by blast
  from all load show "length (slots_of ?OV s') = length (slots_of ?OV s) +
         (if load_ulong (heap s) buffer (unat ?z) = Some (?z + CHECK_VAL) then 0 else 1)"
    by simp
  from all load show "mem_err_detect s' \<longleftrightarrow> mem_err_detect s \<or>
         load_ulong (heap s) buffer (unat ?z) \<noteq> Some (?z + CHECK_VAL)"
    by simp
  from all show "sz \<noteq> 0 \<Longrightarrow> p \<noteq> NULL \<and> load_ulong (heap s') p (unat sz) = Some (sz + CHECK_VAL)"
    by blast
  from all show "sz = 0 \<Longrightarrow> p = NULL \<and> n_used s' = n_used s - 1" by blast
qed

subsection \<open>What each call does to the table\<close>

lemma common_step:
  assumes wf: "wf_state M s"
    and ret: "keepalived_free_realloc_common M r s buffer sz file func line = Inr (p, s')"
  shows "step_ok M s s'"
proof (cases "buffer = NULL")
  case True
  with ret common_NULL_step [OF wf] show ?thesis
    by (simp add: keepalived_free_realloc_common_def)
next
  case False
  let ?i = "allocated_loop (alloc_list s) (number_alloc_list s) buffer 0"
  show ?thesis
  proof (cases "?i = number_alloc_list s")
    case True
    with False ret common_not_found_step [OF wf] show ?thesis
      by (simp add: keepalived_free_realloc_common_def)
  next
    case ne: False
    have "?i \<le> number_alloc_list s" by (simp add: allocated_loop_le)
    with ne have lt: "?i < number_alloc_list s" by simp
    from allocated_loop_found [OF lt]
    have a: "mc_type (alloc_list s ! ?i) = ALLOCATED" "mc_ptr (alloc_list s ! ?i) = buffer"
      by simp_all
    from False ne ret have "common_found M r s ?i buffer sz file func line = Inr (p, s')"
      by (simp add: keepalived_free_realloc_common_def Let_def)
    from common_found_step(1) [OF wf lt a this] show ?thesis .
  qed
qed

lemma step_ok_log: "step_ok M (s\<lparr>log_op := l\<rparr>) s' \<longleftrightarrow> step_ok M s s'"
  by (simp add: step_ok_def persists_def slots_of_def)

lemma wf_state_log: "wf_state M (s\<lparr>log_op := l\<rparr>) \<longleftrightarrow> wf_state M s"
  by (simp add: wf_state_def)

lemma keepalived_free_step:
  assumes "wf_state M s" and "keepalived_free M r s buffer file func line = Inr s'"
  shows "step_ok M s s'"
  using assms common_step [of M s r buffer 0 "file" func line]
  by (auto simp: keepalived_free_def split: sum.splits)

lemma keepalived_realloc_step:
  assumes wf: "wf_state M s"
    and ret: "keepalived_realloc M r s buffer sz file func line = Inr (p, s')"
  shows "step_ok M s s'"
proof (cases "sz = 0")
  case True
  let ?s0 = "s\<lparr>log_op := log_op s @ [Log_converted_to_free buffer]\<rparr>"
  from True ret have "keepalived_free M r ?s0 buffer file func line = Inr s'"
    by (auto simp: keepalived_realloc_def split: sum.splits)
  from keepalived_free_step [OF _ this] wf show ?thesis
    by (simp add: step_ok_log wf_state_log)
next
  case False
  with ret common_step [OF wf] show ?thesis
    by (simp add: keepalived_realloc_def)
qed

lemma keepalived_alloc_log_fields:
  "alloc_list (keepalived_alloc_log s final) = alloc_list s"
  "number_alloc_list (keepalived_alloc_log s final) = number_alloc_list s"
  "n_used (keepalived_alloc_log s final) = n_used s"
  "free_list (keepalived_alloc_log s final) = free_list s"
  "f_next (keepalived_alloc_log s final) = f_next s"
  "mem_err_detect (keepalived_alloc_log s final) = mem_err_detect s"
  "heap (keepalived_alloc_log s final) = heap s"
  by (simp_all add: keepalived_alloc_log_def Let_def split: prod.splits)

lemma exec_call_step:
  assumes wf: "wf_state M s" and ret: "exec_call M s c = Inr s'"
  shows "step_ok M s s'"
proof -
  obtain r k where c: "c = (r, k)" by (cases c)
  show ?thesis
  proof (cases k)
    case (Malloc sz fname func line)
    with ret c keepalived_malloc_step(1) [OF wf] show ?thesis
      by (auto split: sum.splits)
  next
    case (Free buffer fname func line)
    with ret c keepalived_free_step [OF wf] show ?thesis by auto
  next
    case (Realloc buffer sz fname func line)
    with ret c keepalived_realloc_step [OF wf] show ?thesis
      by (auto split: sum.splits)
  next
    case Alloc_dump
    with ret c have "s' = keepalived_alloc_log s False"
      by (simp add: keepalived_alloc_dump_def)
    with wf show ?thesis
      by (intro step_ok_same_table) (simp_all add: keepalived_alloc_log_fields)
  next
    case Skip_mem_dump
    with ret c have "s' = s\<lparr>skip_mem_check_final := True\<rparr>" by (simp add: skip_mem_dump_def)
    with wf show ?thesis by (intro step_ok_same_table) simp_all
  next
    case (Write_byte q off b)
    with ret c obtain h where "s' = s\<lparr>heap := h\<rparr>"
      by (auto simp: write_byte_def split: option.splits if_splits)
    with wf show ?thesis by (intro step_ok_same_table) simp_all
  qed
qed

lemma run_step:
  assumes "wf_state M s" and "run M s cs = Inr s'"
  shows "step_ok M s s'"
  using assms
proof (induction cs arbitrary: s)
  case Nil
  then show ?case by (simp add: step_ok_refl)
next
  case (Cons c cs)
  from Cons.prems(2) obtain s1 where c: "exec_call M s c = Inr s1" and r: "run M s1 cs = Inr s'"
    by (auto split: sum.splits)
  from exec_call_step [OF Cons.prems(1) c] have st: "step_ok M s s1" .
  then have "wf_state M s1" by (simp add: step_ok_def)
  from Cons.IH [OF this r] st show ?case by (rule step_ok_trans [rotated])
qed

lemma initial_state_inv: "table_inv M (initial_state M)"
  by (simp add: table_inv_def initial_state_wf) (simp add: initial_state_def slots_of_def)

lemma run_inv:
  assumes "run M (initial_state M) cs = Inr s"
  shows "table_inv M s"
proof -
  from run_step [OF initial_state_wf assms] initial_state_inv [of M]
  show ?thesis by (simp add: step_ok_def table_inv_def)
qed

subsection \<open>The dump\<close>

lemma alloc_log_entry_eq:
  "alloc_log_entry final nal i e (ov, bp, t, lg) =
     (ov + (if mc_type e = OVERRUN then 1 else 0),
      bp + (if is_badptr (mc_type e) then 1 else 0),
      t + (if mc_type e = ALLOCATED then mc_size e else 0),
      lg @ dump_lines final nal i e)"
  by (cases "mc_type e") (simp_all add: alloc_log_entry_def dump_lines_def)

lemma alloc_log_loop_eq:
  "alloc_log_loop al nal final k (ov, bp, t, lg) =
     (ov + of_nat (length (filter (\<lambda>j. mc_type (al ! j) = OVERRUN) [k..<nal])),
      bp + of_nat (length (filter (\<lambda>j. is_badptr (mc_type (al ! j))) [k..<nal])),
      t + sum_list (map (\<lambda>j. if mc_type (al ! j) = ALLOCATED then mc_size (al ! j) else 0)
                      [k..<nal]),
      lg @ concat (map (\<lambda>j. dump_lines final nal j (al ! j)) [k..<nal]))"
proof (induction "nal - k" arbitrary: k ov bp t lg)
  case 0
  then show ?case by (subst alloc_log_loop.simps) simp
next
  case (Suc d)
  then have lt: "k < nal" and d: "d = nal - Suc k" by simp_all
  have upt: "[k..<nal] = k # [Suc k..<nal]" using lt by (simp add: upt_rec)
  show ?case
    using lt
    by (subst alloc_log_loop.simps)
       (simp add: alloc_log_entry_eq Suc.hyps(1) [OF d] upt algebra_simps)
qed

lemma take_as_map_nth: "n \<le> length xs \<Longrightarrow> take n xs = map (\<lambda>j. xs ! j) [0..<n]"
  by (rule nth_equalityI) simp_all

lemma slots_of_indices:
  assumes "number_alloc_list s \<le> length (alloc_list s)"
  shows "length (filter (\<lambda>j. P (mc_type (alloc_list s ! j))) [0..<number_alloc_list s]) =
         length (slots_of P s)"
  by (simp add: slots_of_def take_as_map_nth [OF assms] filter_map comp_def)

lemma alloc_sum_zero:
  assumes "filter (\<lambda>j. mc_type (al ! j) = ALLOCATED) js = []"
  shows "sum_list (map (\<lambda>j. if mc_type (al ! j) = ALLOCATED then mc_size (al ! j) else 0) js)
         = (0 :: size_t)"
  using assms by (induction js) (auto split: if_splits)

lemma word_of_nat_eq_0:
  assumes "n < 2 ^ 32"
  shows "(of_nat n :: uint) = 0 \<longleftrightarrow> n = 0"
proof
  assume "(of_nat n :: uint) = 0"
  then have "2 ^ 32 dvd n" by (simp add: word_of_nat_eq_0_iff)
  with assms show "n = 0" by (auto dest: dvd_imp_le)
qed simp

lemma keepalived_alloc_log_eq:
  fixes s :: mstate
  assumes run: "\<not> (final \<and> skip_mem_check_final s)"
    and ov: "ov = (of_nat (length (filter (\<lambda>j. mc_type (alloc_list s ! j) = OVERRUN)
                           [0..<number_alloc_list s])) :: uint)"
    and bp: "bp = (of_nat (length (filter (\<lambda>j. is_badptr (mc_type (alloc_list s ! j)))
                           [0..<number_alloc_list s])) :: uint)"
    and t: "t = sum_list (map (\<lambda>j. if mc_type (alloc_list s ! j) = ALLOCATED
                                   then mc_size (alloc_list s ! j) else 0)
                     [0..<number_alloc_list s])"
  shows "log_op (keepalived_alloc_log s final) =
     log_op s @ Log_dump_header final #
     concat (map (\<lambda>j. dump_lines final (number_alloc_list s) j (alloc_list s ! j))
               [0..<number_alloc_list s]) @
     [Log_summary_header, Log_total_bytes final t, Log_entries final (n_used s),
      Log_max_entries (number_alloc_list s), Log_max_memory (max_mem_allocated s),
      Log_mallocs (num_mallocs s), Log_reallocs (num_reallocs s),
      Log_bad_entries bp, Log_buffer_overrun ov] @
     (if t \<noteq> mem_allocated s then [Log_sum_ERROR t (mem_allocated s)] else []) @
     (if final then
        [if t \<noteq> 0 \<or> n_used s \<noteq> 0 \<or> bp \<noteq> 0 \<or> ov \<noteq> 0
         then Log_memory_problem else Log_allocation_safe]
      else [])"
proof -
  have loop: "alloc_log_loop (alloc_list s) (number_alloc_list s) final 0
       (0, 0, 0, log_op s @ [Log_dump_header final]) =
     (ov, bp, t, log_op s @ Log_dump_header final #
        concat (map (\<lambda>j. dump_lines final (number_alloc_list s) j (alloc_list s ! j))
               [0..<number_alloc_list s]))"
    unfolding alloc_log_loop_eq ov bp t by simp
  from run have "keepalived_alloc_log s final =
      (let s1 = s\<lparr>log_op := log_op s @ [Log_dump_header final]\<rparr>
        in (case alloc_log_loop (alloc_list s) (number_alloc_list s) final 0
                   (0, 0, 0, log_op s @ [Log_dump_header final]) of
              (overrun, badptr, nbytes, lg) \<Rightarrow>
                let s2 = s1\<lparr>log_op := lg @
                           [Log_summary_header,
                            Log_total_bytes final nbytes,
                            Log_entries final (n_used s),
                            Log_max_entries (number_alloc_list s),
                            Log_max_memory (max_mem_allocated s),
                            Log_mallocs (num_mallocs s),
                            Log_reallocs (num_reallocs s),
                            Log_bad_entries badptr,
                            Log_buffer_overrun overrun]\<rparr>;
                    s3 = (if nbytes \<noteq> mem_allocated s
                          then s2\<lparr>log_op := log_op s2 @
                                  [Log_sum_ERROR nbytes (mem_allocated s)]\<rparr>
                          else s2)
                in if final then
                     (if nbytes \<noteq> 0 \<or> n_used s \<noteq> 0 \<or> badptr \<noteq> 0 \<or> overrun \<noteq> 0
                      then s3\<lparr>log_op := log_op s3 @ [Log_memory_problem]\<rparr>
                      else s3\<lparr>log_op := log_op s3 @ [Log_allocation_safe]\<rparr>)
                   else s3))"
    by (simp add: keepalived_alloc_log_def Let_def split: prod.splits)
  then show ?thesis
    unfolding loop by (simp add: Let_def)
qed

lemma final_dump_last:
  fixes s :: mstate
  assumes "\<not> skip_mem_check_final s"
  shows "last (log_op (keepalived_free_final s)) =
     (if sum_list (map (\<lambda>j. if mc_type (alloc_list s ! j) = ALLOCATED
                               then mc_size (alloc_list s ! j) else 0)
                      [0..<number_alloc_list s]) \<noteq> (0 :: size_t) \<or>
         n_used s \<noteq> 0 \<or>
         (of_nat (length (filter (\<lambda>j. is_badptr (mc_type (alloc_list s ! j)))
                           [0..<number_alloc_list s])) :: uint) \<noteq> 0 \<or>
         (of_nat (length (filter (\<lambda>j. mc_type (alloc_list s ! j) = OVERRUN)
                           [0..<number_alloc_list s])) :: uint) \<noteq> 0
      then Log_memory_problem else Log_allocation_safe)"
  using assms
  by (simp add: keepalived_free_final_def keepalived_alloc_log_eq [OF _ refl refl refl])

subsection \<open>The verdict of the final dump\<close>

lemma sample_live_reached:
  "run 4 (initial_state 4)
     [(\<lparr>reply_ptr = 4096, reply_junk = (\<lambda>k. 170)\<rparr>, Malloc 2 ''main.c'' ''main'' 7)] =
   Inr sample_live"
proof -
  have g: "get_free_alloc_entry 4 (initial_state 4) (- 1) =
      Inr (0, (initial_state 4)\<lparr>number_alloc_list := 1\<rparr>)"
    by (simp add: get_free_alloc_entry_def free_entry_loop.simps initial_state_def)
  have r4: "replicate 4 x = [x, x, x, x]" for x :: MEMCHECK
    by (simp add: eval_nat_numeral)
  have r2: "replicate 2 x = [x, x]" for x :: byte
    by (simp add: eval_nat_numeral)
  have "keepalived_malloc 4 \<lparr>reply_ptr = 4096, reply_junk = (\<lambda>k. 170)\<rparr> (initial_state 4) 2
      ''main.c'' ''main'' 7 = Inr (4096, sample_live)"
    unfolding keepalived_malloc_eq g
    by (simp add: sample_live_def) (simp add: initial_state_def r4 r2)
  then show ?thesis by simp
qed

text \<open>
  C1.  At the end of a run from program start, with the final dump not suppressed and a
  capacity that fits the \<^verbatim>\<open>int\<close> counters, the last line of the final dump is the verdict:
  \<open>allocation safe\<close> when no slot in use is \<open>ALLOCATED\<close>, none holds a bad-pointer record
  (\<open>FREE_NULL\<close>, \<open>REALLOC_NULL\<close>, \<open>FREE_NOT_ALLOC\<close>, \<open>REALLOC_NOT_ALLOC\<close>) and none is
  \<open>OVERRUN\<close>, and \<open>memory problem\<close> otherwise.  The code also tests the counter \<^verbatim>\<open>n\<close> and
  the summed sizes; along a run \<^verbatim>\<open>n\<close> is the number of allocated slots, and without an
  allocated slot the sum reported as not freed is 0, so the table decides.
\<close>

theorem final_verdict_from_table:
  assumes "run M (initial_state M) cs = Inr s"
    and "\<not> skip_mem_check_final s" and "M < 2 ^ 31"
  shows "last (log_op (keepalived_free_final s)) =
     (if slots_of (\<lambda>t. t = ALLOCATED) s = [] \<and> slots_of is_badptr s = [] \<and>
         slots_of (\<lambda>t. t = OVERRUN) s = []
      then Log_allocation_safe else Log_memory_problem) \<and>
     (if slots_of (\<lambda>t. t = ALLOCATED) s = []
      then Log_total_bytes True 0 \<in> set (log_op (keepalived_free_final s)) \<and>
           Log_entries True 0 \<in> set (log_op (keepalived_free_final s))
      else n_used s \<noteq> 0)"
proof -
  let ?al = "\<lambda>j. mc_type (alloc_list s ! j) = ALLOCATED"
  let ?bp = "\<lambda>j. is_badptr (mc_type (alloc_list s ! j))"
  let ?ov = "\<lambda>j. mc_type (alloc_list s ! j) = OVERRUN"
  let ?js = "[0..<number_alloc_list s]"
  let ?t = "sum_list (map (\<lambda>j. if mc_type (alloc_list s ! j) = ALLOCATED
                               then mc_size (alloc_list s ! j) else 0) ?js) :: size_t"
  from run_inv [OF assms(1)] have wf: "wf_state M s"
    and n: "n_used s = int (length (slots_of (\<lambda>t. t = ALLOCATED) s))"
    by (simp_all add: table_inv_def)
  from wf have le: "number_alloc_list s \<le> length (alloc_list s)"
    and nal: "number_alloc_list s \<le> M" by (simp_all add: wf_state_def)
  note ix = slots_of_indices [OF le]
  have small: "length (filter P ?js) < 2 ^ 32" for P
  proof -
    have "length (filter P ?js) \<le> number_alloc_list s"
      using length_filter_le [of P ?js] by simp
    with nal assms(3) show ?thesis by simp
  qed
  have bp0: "(of_nat (length (filter ?bp ?js)) :: uint) = 0 \<longleftrightarrow> slots_of is_badptr s = []"
    using word_of_nat_eq_0 [OF small, of ?bp] ix [of is_badptr] by simp
  have ov0: "(of_nat (length (filter ?ov ?js)) :: uint) = 0 \<longleftrightarrow>
      slots_of (\<lambda>t. t = OVERRUN) s = []"
    using word_of_nat_eq_0 [OF small, of ?ov] ix [of "\<lambda>t. t = OVERRUN"] by simp
  have n0: "n_used s = 0 \<longleftrightarrow> slots_of (\<lambda>t. t = ALLOCATED) s = []"
    using n by simp
  have t0: "?t = 0" if "slots_of (\<lambda>t. t = ALLOCATED) s = []"
  proof -
    from that ix [of "\<lambda>t. t = ALLOCATED"] have "filter ?al ?js = []" by simp
    then show ?thesis by (rule alloc_sum_zero)
  qed
  have verdict: "last (log_op (keepalived_free_final s)) =
     (if slots_of (\<lambda>t. t = ALLOCATED) s = [] \<and> slots_of is_badptr s = [] \<and>
         slots_of (\<lambda>t. t = OVERRUN) s = []
      then Log_allocation_safe else Log_memory_problem)"
    unfolding final_dump_last [OF assms(2)] bp0 ov0 n0 using t0 by auto
  have lines: "Log_total_bytes True 0 \<in> set (log_op (keepalived_free_final s)) \<and>
           Log_entries True 0 \<in> set (log_op (keepalived_free_final s))"
    if e: "slots_of (\<lambda>t. t = ALLOCATED) s = []"
  proof -
    from e n0 have "n_used s = 0" by simp
    with t0 [OF e] assms(2) show ?thesis
      unfolding keepalived_free_final_def
      by (subst (1 2) keepalived_alloc_log_eq [OF _ refl refl refl]) simp_all
  qed
  from verdict lines n0 show ?thesis by simp
qed

theorem final_verdict_from_table_witness:
  "run 4 (initial_state 4)
     [(\<lparr>reply_ptr = 4096, reply_junk = (\<lambda>k. 170)\<rparr>, Malloc 2 ''main.c'' ''main'' 7)] =
     Inr sample_live \<and>
   \<not> skip_mem_check_final sample_live \<and> (4 :: nat) < 2 ^ 31 \<and>
   slots_of (\<lambda>t. t = ALLOCATED) sample_live =
     [\<lparr>mc_type = ALLOCATED, mc_line = 7, mc_func = ''main'', mc_file = ''main.c'',
       mc_ptr = 4096, mc_size = 2\<rparr>] \<and>
   last (log_op (keepalived_free_final sample_live)) = Log_memory_problem"
proof -
  have h2: "\<not> skip_mem_check_final sample_live"
    by (simp add: sample_live_def initial_state_def)
  have h3: "(4 :: nat) < 2 ^ 31" by simp
  have sl: "slots_of (\<lambda>t. t = ALLOCATED) sample_live =
     [\<lparr>mc_type = ALLOCATED, mc_line = 7, mc_func = ''main'', mc_file = ''main.c'',
       mc_ptr = 4096, mc_size = 2\<rparr>]"
    by (simp add: slots_of_def sample_live_def initial_state_def)
  from final_verdict_from_table [OF sample_live_reached h2 h3]
  show ?thesis using sample_live_reached h2 sl by simp
qed

subsection \<open>The capacity of the table\<close>

lemma free_entry_loop_no_free:
  assumes "\<forall>k < nal. mc_type (al ! k) \<noteq> FREE_SLOT"
  shows "free_entry_loop al nal avoid 0 = nal"
proof -
  have le: "free_entry_loop al nal avoid 0 \<le> nal" by (simp add: free_entry_loop_le)
  show ?thesis
  proof (rule ccontr)
    assume "free_entry_loop al nal avoid 0 \<noteq> nal"
    with le have lt: "free_entry_loop al nal avoid 0 < nal" by simp
    from free_entry_loop_found [OF lt] assms lt show False by blast
  qed
qed

text \<open>
  C4.  After any run from program start the number of table entries in use is at most the
  capacity (the length of the array).  In such a state a search that finds no slot of type
  \<open>FREE_SLOT\<close> among the entries in use takes the next entry, making the table one
  longer, unless that would bring the length up to the capacity, where the \<^verbatim>\<open>assert\<close>
  stops the process; and whenever \<^verbatim>\<open>get_free_alloc_entry\<close> returns, the length it leaves
  is below the capacity.
\<close>

theorem table_within_capacity:
  assumes "run M (initial_state M) cs = Inr s"
  shows "number_alloc_list s \<le> M \<and> length (alloc_list s) = M \<and>
    ((\<forall>k < number_alloc_list s. mc_type (alloc_list s ! k) \<noteq> FREE_SLOT) \<longrightarrow>
       get_free_alloc_entry M s (- 1) =
         (if number_alloc_list s + 1 < M
          then Inr (number_alloc_list s, s\<lparr>number_alloc_list := number_alloc_list s + 1\<rparr>)
          else Inl ASSERT_FAILED)) \<and>
    (\<forall>i s1. get_free_alloc_entry M s (- 1) = Inr (i, s1) \<longrightarrow>
       number_alloc_list s1 < M \<and> number_alloc_list s1 \<le> number_alloc_list s + 1) \<and>
    (\<forall>e. get_free_alloc_entry M s (- 1) = Inl e \<longrightarrow> e = ASSERT_FAILED)"
proof -
  from run_inv [OF assms] have "wf_state M s" by (simp add: table_inv_def)
  then have a: "number_alloc_list s \<le> M \<and> length (alloc_list s) = M"
    by (simp add: wf_state_def)
  have b: "get_free_alloc_entry M s (- 1) =
         (if number_alloc_list s + 1 < M
          then Inr (number_alloc_list s, s\<lparr>number_alloc_list := number_alloc_list s + 1\<rparr>)
          else Inl ASSERT_FAILED)"
    if "\<forall>k < number_alloc_list s. mc_type (alloc_list s ! k) \<noteq> FREE_SLOT"
    using free_entry_loop_no_free [OF that, of "- 1"]
    by (simp add: get_free_alloc_entry_def Let_def)
  have c: "number_alloc_list s1 < M \<and> number_alloc_list s1 \<le> number_alloc_list s + 1"
    if "get_free_alloc_entry M s (- 1) = Inr (i, s1)" for i s1
    using get_free_alloc_entry_Inr(3,5) [OF that] by (simp split: if_splits)
  have d: "e = ASSERT_FAILED" if "get_free_alloc_entry M s (- 1) = Inl e" for e
    using get_free_alloc_entry_full [OF that] by simp
  from a b c d show ?thesis by blast
qed

theorem table_within_capacity_witness:
  "run 4 (initial_state 4)
     [(\<lparr>reply_ptr = 4096, reply_junk = (\<lambda>k. 170)\<rparr>, Malloc 2 ''main.c'' ''main'' 7)] =
     Inr sample_live \<and>
   number_alloc_list sample_live = 1 \<and> length (alloc_list sample_live) = 4 \<and>
   mc_type (alloc_list sample_live ! 0) \<noteq> FREE_SLOT \<and>
   get_free_alloc_entry 4 sample_live (- 1) = Inr (1, sample_live\<lparr>number_alloc_list := 2\<rparr>)"
proof -
  note f = sample_live_facts
  have nf: "\<forall>k < number_alloc_list sample_live. mc_type (alloc_list sample_live ! k) \<noteq> FREE_SLOT"
    by (simp add: f)
  from table_within_capacity [OF sample_live_reached] nf
  show ?thesis using sample_live_reached by (simp add: f)
qed

subsection \<open>Error records stay\<close>

lemma dump_lines_error:
  "is_error (mc_type e) \<Longrightarrow> dump_lines final nal i e \<noteq> []"
  by (cases "mc_type e") (simp_all add: dump_lines_def alloc_log_entry_def)

lemma final_dump_has_lines:
  assumes "\<not> skip_mem_check_final s" and "i < number_alloc_list s"
  shows "set (dump_lines True (number_alloc_list s) i (alloc_list s ! i)) \<subseteq>
         set (log_op (keepalived_free_final s))"
  using assms
  by (auto simp: keepalived_free_final_def keepalived_alloc_log_eq [OF _ refl refl refl])

text \<open>
  C10.  The slot that \<^verbatim>\<open>get_free_alloc_entry\<close> hands out is either of type \<open>FREE_SLOT\<close>
  or the first entry not yet in use, so it is never a slot holding an error record.  A
  slot in use that holds an error record (\<open>OVERRUN\<close>, \<open>FREE_NULL\<close>, \<open>REALLOC_NULL\<close>,
  \<open>FREE_NOT_ALLOC\<close>, \<open>REALLOC_NOT_ALLOC\<close>) is still in use and holds the same record after
  any further calls that return, and the final dump, unless suppressed, writes its lines.
\<close>

theorem error_records_persist:
  assumes "wf_state M s" and "run M s cs = Inr s'"
    and "i < number_alloc_list s" and "is_error (mc_type (alloc_list s ! i))"
  shows "i < number_alloc_list s' \<and> alloc_list s' ! i = alloc_list s ! i \<and>
    (\<forall>j s1. get_free_alloc_entry M s (- 1) = Inr (j, s1) \<longrightarrow>
       j \<noteq> i \<and> (j < number_alloc_list s \<longrightarrow> mc_type (alloc_list s ! j) = FREE_SLOT)) \<and>
    (\<not> skip_mem_check_final s' \<longrightarrow>
       dump_lines True (number_alloc_list s') i (alloc_list s ! i) \<noteq> [] \<and>
       set (dump_lines True (number_alloc_list s') i (alloc_list s ! i)) \<subseteq>
         set (log_op (keepalived_free_final s')))"
proof -
  from run_step [OF assms(1,2)] have "persists s s'" by (simp add: step_ok_def)
  with assms(3,4) have keep: "i < number_alloc_list s'" "alloc_list s' ! i = alloc_list s ! i"
    by (auto simp: persists_def)
  have pick: "j \<noteq> i \<and> (j < number_alloc_list s \<longrightarrow> mc_type (alloc_list s ! j) = FREE_SLOT)"
    if g: "get_free_alloc_entry M s (- 1) = Inr (j, s1)" for j s1
  proof -
    from assms(4) have "mc_type (alloc_list s ! i) \<noteq> FREE_SLOT" by auto
    from record_keeps_used(1) [OF g assms(3) this] have "j \<noteq> i" by simp
    moreover have "mc_type (alloc_list s ! j) = FREE_SLOT" if "j < number_alloc_list s"
      using free_entry_loop_found [of "alloc_list s" "number_alloc_list s" "- 1" 0]
        get_free_alloc_entry_Inr(4) [OF g] that by simp
    ultimately show ?thesis by simp
  qed
  have dump: "dump_lines True (number_alloc_list s') i (alloc_list s ! i) \<noteq> [] \<and>
       set (dump_lines True (number_alloc_list s') i (alloc_list s ! i)) \<subseteq>
         set (log_op (keepalived_free_final s'))"
    if "\<not> skip_mem_check_final s'"
    using final_dump_has_lines [OF that keep(1)] dump_lines_error [OF assms(4)] keep(2)
    by simp
  from keep pick dump show ?thesis by blast
qed

lemma sample_error_facts:
  "wf_state 4 sample_error" "number_alloc_list sample_error = 1"
  "alloc_list sample_error ! 0 =
     \<lparr>mc_type = FREE_NULL, mc_line = 3, mc_func = ''main'', mc_file = ''main.c'',
      mc_ptr = NULL, mc_size = 0\<rparr>"
  "\<not> skip_mem_check_final sample_error"
  by (simp_all add: sample_error_def initial_state_def wf_state_def FREE_LIST_SIZE_def)

lemma sample_error_run:
  "\<exists>s'. run 4 sample_error
     [(\<lparr>reply_ptr = 4096, reply_junk = (\<lambda>k. 170)\<rparr>, Malloc 2 ''main.c'' ''main'' 7)] = Inr s' \<and>
     number_alloc_list s' = 2 \<and> mc_type (alloc_list s' ! 1) = ALLOCATED \<and>
     \<not> skip_mem_check_final s'"
proof -
  have g: "get_free_alloc_entry 4 sample_error (- 1) =
      Inr (1, sample_error\<lparr>number_alloc_list := 2\<rparr>)"
    by (simp add: get_free_alloc_entry_def free_entry_loop.simps sample_error_def
        initial_state_def)
  have len: "length (alloc_list sample_error) = 4"
    using sample_error_facts(1) by (simp add: wf_state_def)
  show ?thesis
    by (simp add: keepalived_malloc_eq g len sample_error_facts(4))
qed

theorem error_records_persist_witness:
  "wf_state 4 sample_error \<and> 0 < number_alloc_list sample_error \<and>
   is_error (mc_type (alloc_list sample_error ! 0)) \<and>
   (\<exists>s'. run 4 sample_error
       [(\<lparr>reply_ptr = 4096, reply_junk = (\<lambda>k. 170)\<rparr>, Malloc 2 ''main.c'' ''main'' 7)] = Inr s' \<and>
     mc_type (alloc_list s' ! 1) = ALLOCATED \<and>
     alloc_list s' ! 0 =
       \<lparr>mc_type = FREE_NULL, mc_line = 3, mc_func = ''main'', mc_file = ''main.c'',
        mc_ptr = NULL, mc_size = 0\<rparr> \<and>
     Log_dump_free_nil ''main.c'' 3 ''main'' \<in> set (log_op (keepalived_free_final s')))"
proof -
  note f = sample_error_facts
  have h3: "0 < number_alloc_list sample_error" by (simp add: f)
  have h4: "is_error (mc_type (alloc_list sample_error ! 0))" by (simp add: f)
  from sample_error_run obtain s' where
    r: "run 4 sample_error
       [(\<lparr>reply_ptr = 4096, reply_junk = (\<lambda>k. 170)\<rparr>, Malloc 2 ''main.c'' ''main'' 7)] = Inr s'"
    and s': "mc_type (alloc_list s' ! 1) = ALLOCATED" "\<not> skip_mem_check_final s'"
    by blast
  have dl: "dump_lines True n 0 (alloc_list sample_error ! 0) =
      [Log_dump_free_nil ''main.c'' 3 ''main'']" for n
    by (simp add: f dump_lines_def alloc_log_entry_def)
  from error_records_persist [OF f(1) r h3 h4] s'
  have "alloc_list s' ! 0 = alloc_list sample_error ! 0"
    and "Log_dump_free_nil ''main.c'' 3 ''main'' \<in> set (log_op (keepalived_free_final s'))"
    by (simp_all add: dl)
  with r s' f(1) h3 h4 show ?thesis by (auto simp: f(3))
qed

end
